theory Spec2Isabelle
  imports Main "HOL-Library.Word" "HOL-Library.Sublist"
begin

section \<open>Values of the runtime\<close>

text \<open>
  A buffer is a sequence of bytes, a JavaScript string a sequence of UTF-16 code
  units.  Numbers that the program stores in 32-bit fields are modelled as \<open>int\<close>;
  the range checks of the buffer operations are written out.
\<close>

type_synonym byte = "8 word"
type_synonym jsstring = "16 word list"

definition str :: "string \<Rightarrow> jsstring" where
  "str s = map of_char s"

datatype error_name = Error | RangeError | TypeError

text \<open>
  A thrown value: the constructor that made it, its \<open>message\<close>, and its other own
  enumerable properties (what \<open>Object.keys\<close> lists), in insertion order.
\<close>

datatype js_error = JsError (err_name: error_name) (err_message: jsstring)
  (err_props: "(jsstring \<times> jsstring) list")

text \<open>
  Errors raised by the runtime itself.  The message texts of the runtime are
  abbreviated to the runtime's error code.
\<close>

definition ERR_OUT_OF_RANGE :: js_error where
  "ERR_OUT_OF_RANGE =
     JsError RangeError (str ''ERR_OUT_OF_RANGE'') [(str ''code'', str ''ERR_OUT_OF_RANGE'')]"

definition ERR_NULL_ACCESS :: js_error where
  "ERR_NULL_ACCESS = JsError TypeError (str ''Cannot read properties of null'') []"

subsection \<open>32-bit little-endian fields of a buffer\<close>

definition int32_ok :: "int \<Rightarrow> bool" where
  "int32_ok v = (- (2 ^ 31) \<le> v \<and> v \<le> 2 ^ 31 - 1)"

definition int32LE_bytes :: "int \<Rightarrow> byte list" where
  "int32LE_bytes v =
     [word_of_int v, word_of_int (v div 2 ^ 8), word_of_int (v div 2 ^ 16),
      word_of_int (v div 2 ^ 24)]"

definition store :: "byte list \<Rightarrow> nat \<Rightarrow> byte list \<Rightarrow> byte list" where
  "store buf off bs = take off buf @ bs @ drop (off + length bs) buf"

text \<open>\<open>buf.writeInt32LE(v, off)\<close>: a value outside the int32 range, or a field that
  does not fit into the buffer, raises.\<close>

definition writeInt32LE :: "byte list \<Rightarrow> int \<Rightarrow> nat \<Rightarrow> js_error + byte list" where
  "writeInt32LE buf v off =
     (if \<not> int32_ok v \<or> length buf < off + 4 then Inl ERR_OUT_OF_RANGE
      else Inr (store buf off (int32LE_bytes v)))"

definition writeInt16LE :: "byte list \<Rightarrow> int \<Rightarrow> nat \<Rightarrow> js_error + byte list" where
  "writeInt16LE buf v off =
     (if \<not> (- (2 ^ 15) \<le> v \<and> v \<le> 2 ^ 15 - 1) \<or> length buf < off + 2 then Inl ERR_OUT_OF_RANGE
      else Inr (store buf off [word_of_int v, word_of_int (v div 2 ^ 8)]))"

text \<open>\<open>buf.readInt32LE(off)\<close>: the three low bytes unsigned, the high byte signed; a
  field that reaches beyond the buffer raises.\<close>

definition int32LE_value :: "byte \<Rightarrow> byte \<Rightarrow> byte \<Rightarrow> byte \<Rightarrow> int" where
  "int32LE_value b0 b1 b2 b3 = uint b0 + uint b1 * 2 ^ 8 + uint b2 * 2 ^ 16 + sint b3 * 2 ^ 24"

definition readInt32LE :: "byte list \<Rightarrow> nat \<Rightarrow> js_error + int" where
  "readInt32LE buf off =
     (if length buf < off + 4 then Inl ERR_OUT_OF_RANGE
      else Inr (int32LE_value (buf ! off) (buf ! (off + 1)) (buf ! (off + 2)) (buf ! (off + 3))))"

text \<open>\<open>Buffer.alloc(n)\<close>: \<open>n\<close> zero bytes.\<close>

definition alloc :: "nat \<Rightarrow> byte list" where
  "alloc n = replicate n 0"

subsection \<open>UTF-8\<close>

text \<open>
  The buffer operations of the runtime that take the encoding \<open>'utf-8'\<close>.  Writing
  a string encodes its code points, a surrogate pair as one code point of four bytes
  and a lone surrogate as U+FFFD.  Reading follows the decoder of the Encoding
  Standard: every maximal ill-formed part of the input yields one U+FFFD.
\<close>

definition is_high :: "16 word \<Rightarrow> bool" where
  "is_high u = (0xD800 \<le> unat u \<and> unat u \<le> 0xDBFF)"

definition is_low :: "16 word \<Rightarrow> bool" where
  "is_low u = (0xDC00 \<le> unat u \<and> unat u \<le> 0xDFFF)"

definition utf8_of_cp :: "nat \<Rightarrow> byte list" where
  "utf8_of_cp c =
     (if c < 0x80 then [of_nat c]
      else if c < 0x800 then [of_nat (0xC0 + c div 64), of_nat (0x80 + c mod 64)]
      else if c < 0x10000 then
        [of_nat (0xE0 + c div 4096), of_nat (0x80 + c div 64 mod 64), of_nat (0x80 + c mod 64)]
      else
        [of_nat (0xF0 + c div 262144), of_nat (0x80 + c div 4096 mod 64),
         of_nat (0x80 + c div 64 mod 64), of_nat (0x80 + c mod 64)])"

definition replacement :: "byte list" where
  "replacement = [0xEF, 0xBF, 0xBD]"

definition cp_of_pair :: "16 word \<Rightarrow> 16 word \<Rightarrow> nat" where
  "cp_of_pair u v = 0x10000 + (unat u - 0xD800) * 0x400 + (unat v - 0xDC00)"

fun utf8_encode :: "jsstring \<Rightarrow> byte list" where
  "utf8_encode [] = []"
| "utf8_encode [u] = (if is_high u \<or> is_low u then replacement else utf8_of_cp (unat u))"
| "utf8_encode (u # v # us) =
     (if is_high u \<and> is_low v then utf8_of_cp (cp_of_pair u v) @ utf8_encode us
      else if is_high u \<or> is_low u then replacement @ utf8_encode (v # us)
      else utf8_of_cp (unat u) @ utf8_encode (v # us))"

definition utf16_of_cp :: "nat \<Rightarrow> jsstring" where
  "utf16_of_cp c =
     (if c < 0x10000 then [of_nat c]
      else [of_nat (0xD800 + (c - 0x10000) div 0x400), of_nat (0xDC00 + (c - 0x10000) mod 0x400)])"

definition cont :: "byte \<Rightarrow> bool" where
  "cont b = (0x80 \<le> unat b \<and> unat b \<le> 0xBF)"

definition second_ok :: "byte \<Rightarrow> byte \<Rightarrow> bool" where
  "second_ok b b1 =
     ((if unat b = 0xE0 then 0xA0 else if unat b = 0xF0 then 0x90 else 0x80) \<le> unat b1
      \<and> unat b1 \<le> (if unat b = 0xED then 0x9F else if unat b = 0xF4 then 0x8F else 0xBF))"

fun utf8_decode :: "byte list \<Rightarrow> jsstring" where
  "utf8_decode [] = []"
| "utf8_decode (b # bs) =
     (if unat b < 0x80 then of_nat (unat b) # utf8_decode bs
      else if 0xC2 \<le> unat b \<and> unat b \<le> 0xDF then
        (case bs of
           [] \<Rightarrow> [0xFFFD]
         | b1 # r1 \<Rightarrow>
            if cont b1 then utf16_of_cp ((unat b - 0xC0) * 64 + (unat b1 - 0x80)) @ utf8_decode r1
            else 0xFFFD # utf8_decode bs)
      else if 0xE0 \<le> unat b \<and> unat b \<le> 0xEF then
        (case bs of
           [] \<Rightarrow> [0xFFFD]
         | b1 # r1 \<Rightarrow>
            if second_ok b b1 then
              (case r1 of
                 [] \<Rightarrow> [0xFFFD]
               | b2 # r2 \<Rightarrow>
                  if cont b2 then
                    utf16_of_cp ((unat b - 0xE0) * 4096 + (unat b1 - 0x80) * 64 + (unat b2 - 0x80))
                    @ utf8_decode r2
                  else 0xFFFD # utf8_decode r1)
            else 0xFFFD # utf8_decode bs)
      else if 0xF0 \<le> unat b \<and> unat b \<le> 0xF4 then
        (case bs of
           [] \<Rightarrow> [0xFFFD]
         | b1 # r1 \<Rightarrow>
            if second_ok b b1 then
              (case r1 of
                 [] \<Rightarrow> [0xFFFD]
               | b2 # r2 \<Rightarrow>
                  if cont b2 then
                    (case r2 of
                       [] \<Rightarrow> [0xFFFD]
                     | b3 # r3 \<Rightarrow>
                        if cont b3 then
                          utf16_of_cp ((unat b - 0xF0) * 262144 + (unat b1 - 0x80) * 4096
                                       + (unat b2 - 0x80) * 64 + (unat b3 - 0x80))
                          @ utf8_decode r3
                        else 0xFFFD # utf8_decode r2)
                  else 0xFFFD # utf8_decode r1)
            else 0xFFFD # utf8_decode bs)
      else 0xFFFD # utf8_decode bs)"

fun well_formed :: "jsstring \<Rightarrow> bool" where
  "well_formed [] = True"
| "well_formed [u] = (\<not> is_high u \<and> \<not> is_low u)"
| "well_formed (u # v # us) =
     (if is_high u then is_low v \<and> well_formed us else \<not> is_low u \<and> well_formed (v # us))"

text \<open>\<open>Buffer.byteLength(s, 'utf-8')\<close>.\<close>

definition byteLength :: "jsstring \<Rightarrow> nat" where
  "byteLength s = length (utf8_encode s)"

text \<open>No string of the runtime is longer than this
  (\<open>buffer.constants.MAX_STRING_LENGTH\<close> on a 64-bit build).\<close>

definition MAX_STRING_LENGTH :: nat where
  "MAX_STRING_LENGTH = 2 ^ 29 - 24"

text \<open>The bytes of the longest prefix of whole characters of a string that fits
  into \<open>n\<close> bytes: a write never stores part of a character.\<close>

fun utf8_fit :: "nat \<Rightarrow> jsstring \<Rightarrow> byte list" where
  "utf8_fit n [] = []"
| "utf8_fit n [u] = (if length (utf8_encode [u]) \<le> n then utf8_encode [u] else [])"
| "utf8_fit n (u # v # us) =
     (if is_high u \<and> is_low v then
        (if length (utf8_encode [u, v]) \<le> n
         then utf8_encode [u, v] @ utf8_fit (n - length (utf8_encode [u, v])) us else [])
      else
        (if length (utf8_encode [u]) \<le> n
         then utf8_encode [u] @ utf8_fit (n - length (utf8_encode [u])) (v # us) else []))"

text \<open>\<open>buf.write(s, off, len, 'utf-8')\<close>: at most \<open>len\<close> bytes, and no more than
  the buffer holds after \<open>off\<close>.\<close>

definition buffer_write :: "byte list \<Rightarrow> jsstring \<Rightarrow> nat \<Rightarrow> nat \<Rightarrow> byte list" where
  "buffer_write buf s off len = store buf off (utf8_fit (min len (length buf - off)) s)"

text \<open>\<open>buf.toString('utf-8', start, fin)\<close>, with the clamping of the runtime.\<close>

definition buffer_toString :: "byte list \<Rightarrow> int \<Rightarrow> int \<Rightarrow> jsstring" where
  "buffer_toString buf start fin =
     (let len = int (length buf) in
      if 0 < start \<and> len \<le> start then []
      else
        let s = (if start \<le> 0 then 0 else start);
            e = (if len < fin then len else fin)
        in if e \<le> s then [] else utf8_decode (take (nat e - nat s) (drop (nat s) buf)))"

subsection \<open>Numbers and JSON text\<close>

text \<open>\<open>String(n)\<close> for an integer.\<close>

fun digits :: "nat \<Rightarrow> jsstring" where
  "digits n = (if n < 10 then [of_nat (48 + n)] else digits (n div 10) @ [of_nat (48 + n mod 10)])"

declare digits.simps [simp del]

definition Number_toString :: "int \<Rightarrow> jsstring" where
  "Number_toString v = (if v < 0 then str ''-'' @ digits (nat (- v)) else digits (nat v))"

text \<open>
  \<open>JSON.stringify\<close> on strings (the operation QuoteJSONString of the language
  standard): the quote, the backslash and the control characters are escaped, a lone
  surrogate is written as a \<open>\u\<close> escape, every other code unit stands for itself.
\<close>

definition hex_digit :: "nat \<Rightarrow> 16 word" where
  "hex_digit d = (if d < 10 then of_nat (48 + d) else of_nat (87 + d))"

definition UnicodeEscape :: "16 word \<Rightarrow> jsstring" where
  "UnicodeEscape u =
     [0x5C, 0x75, hex_digit (unat u div 4096), hex_digit (unat u div 256 mod 16),
      hex_digit (unat u div 16 mod 16), hex_digit (unat u mod 16)]"

definition quote_unit :: "16 word \<Rightarrow> jsstring" where
  "quote_unit u =
     (if u = 0x08 then [0x5C, 0x62]
      else if u = 0x09 then [0x5C, 0x74]
      else if u = 0x0A then [0x5C, 0x6E]
      else if u = 0x0C then [0x5C, 0x66]
      else if u = 0x0D then [0x5C, 0x72]
      else if u = 0x22 then [0x5C, 0x22]
      else if u = 0x5C then [0x5C, 0x5C]
      else if unat u < 0x20 \<or> is_high u \<or> is_low u then UnicodeEscape u
      else [u])"

fun quote_units :: "jsstring \<Rightarrow> jsstring" where
  "quote_units [] = []"
| "quote_units [u] = quote_unit u"
| "quote_units (u # v # us) =
     (if is_high u \<and> is_low v then u # v # quote_units us
      else quote_unit u @ quote_units (v # us))"

definition QuoteJSONString :: "jsstring \<Rightarrow> jsstring" where
  "QuoteJSONString s = [0x22] @ quote_units s @ [0x22]"


datatype json = JNumber int | JString jsstring

definition json_text :: "json \<Rightarrow> jsstring" where
  "json_text j = (case j of JNumber n \<Rightarrow> Number_toString n | JString s \<Rightarrow> QuoteJSONString s)"

fun json_members :: "(jsstring \<times> json) list \<Rightarrow> jsstring" where
  "json_members [] = []"
| "json_members [(k, j)] = QuoteJSONString k @ str '':'' @ json_text j"
| "json_members ((k, j) # m # ms) =
     QuoteJSONString k @ str '':'' @ json_text j @ str '','' @ json_members (m # ms)"

text \<open>\<open>JSON.stringify\<close> on an object literal of numbers and strings, its members in
  the order they are written.\<close>

definition JSON_stringify :: "(jsstring \<times> json) list \<Rightarrow> jsstring" where
  "JSON_stringify ms = str ''{'' @ json_members ms @ str ''}''"

section \<open>Packet types\<close>

text \<open>
  The enumeration \<open>Rcon.PacketType\<close> is numeric, and two of its members share the
  value 2; at run time a packet type is a number.
\<close>

type_synonym PacketType = int

definition UNKNOWN :: PacketType where "UNKNOWN = - 1"
definition SERVERDATA_AUTH :: PacketType where "SERVERDATA_AUTH = 3"
definition SERVERDATA_AUTH_RESPONSE :: PacketType where "SERVERDATA_AUTH_RESPONSE = 2"
definition SERVERDATA_EXECCOMMAND :: PacketType where "SERVERDATA_EXECCOMMAND = 2"
definition SERVERDATA_RESPONSE_VALUE :: PacketType where "SERVERDATA_RESPONSE_VALUE = 0"
definition BOUNDARY :: PacketType where "BOUNDARY = 255"

text \<open>The numbers among \<open>Object.values(Rcon.PacketType)\<close> (its other members are the
  names, which no number equals).\<close>

definition PacketType_values :: "PacketType list" where
  "PacketType_values =
     [UNKNOWN, SERVERDATA_AUTH, SERVERDATA_AUTH_RESPONSE, SERVERDATA_EXECCOMMAND,
      SERVERDATA_RESPONSE_VALUE, BOUNDARY]"

section \<open>RconPacket\<close>

datatype RconPacket = RconPacket (buffer: "byte list")

definition size_pkt :: "RconPacket \<Rightarrow> js_error + int" where
  "size_pkt p = readInt32LE (buffer p) 0"

definition id_pkt :: "RconPacket \<Rightarrow> js_error + int" where
  "id_pkt p = readInt32LE (buffer p) 4"

definition type_pkt :: "RconPacket \<Rightarrow> js_error + PacketType" where
  "type_pkt p =
     (case readInt32LE (buffer p) 8 of
        Inl e \<Rightarrow> Inl e
      | Inr t \<Rightarrow> if t \<in> set PacketType_values then Inr t else Inr UNKNOWN)"

text \<open>
  \<open>pack(id, type, payload)\<close>, which the constructor runs when it is given an id: the
  buffer is allocated and then filled field by field.  A write that raises ends it.
\<close>

definition ENCODING :: string where "ENCODING = ''utf-8''"

definition PACKET_FIXED_SIZE :: nat where "PACKET_FIXED_SIZE = 14"

definition pack :: "int \<Rightarrow> PacketType \<Rightarrow> jsstring \<Rightarrow> js_error + RconPacket" where
  "pack i t pl =
     (let sz = byteLength pl + PACKET_FIXED_SIZE;
          b0 = alloc sz
      in case writeInt32LE b0 (int sz - 4) 0 of
           Inl e \<Rightarrow> Inl e
         | Inr b1 \<Rightarrow>
            (case writeInt32LE b1 i 4 of
               Inl e \<Rightarrow> Inl e
             | Inr b2 \<Rightarrow>
                (case writeInt32LE b2 t 8 of
                   Inl e \<Rightarrow> Inl e
                 | Inr b3 \<Rightarrow>
                    (case writeInt16LE (buffer_write b3 pl 12 (sz - PACKET_FIXED_SIZE)) 0 (sz - 2) of
                       Inl e \<Rightarrow> Inl e
                     | Inr b5 \<Rightarrow> Inr (RconPacket b5)))))"

definition payload :: "RconPacket \<Rightarrow> jsstring" where
  "payload p = buffer_toString (buffer p) 12 (int (length (buffer p)) - 2)"

text \<open>\<open>toString()\<close>: the members of the object literal are evaluated in the order
  written (\<open>size\<close>, \<open>id\<close>, \<open>type\<close>, then the type again to choose the payload).\<close>

definition toString :: "RconPacket \<Rightarrow> js_error + jsstring" where
  "toString p =
     (case size_pkt p of
        Inl e \<Rightarrow> Inl e
      | Inr s \<Rightarrow>
         (case id_pkt p of
            Inl e \<Rightarrow> Inl e
          | Inr i \<Rightarrow>
             (case type_pkt p of
                Inl e \<Rightarrow> Inl e
              | Inr t \<Rightarrow>
                 Inr (str ''RconPacket'' @
                      JSON_stringify
                        [(str ''size'', JNumber s), (str ''id'', JNumber i), (str ''type'', JNumber t),
                         (str ''payload'',
                          JString (if t = SERVERDATA_AUTH then str ''<hidden>'' else payload p))]))))"

text \<open>
  \<open>inResponseTo(pkt)\<close>, with \<open>this\<close> first.  The request \<open>pkt\<close> may be absent
  (\<open>None\<close>).  The getters are read in the order of the source: \<open>pkt.id\<close>,
  \<open>this.id\<close>, \<open>this.type\<close>, \<open>pkt.type\<close>; each may raise.
\<close>

definition inResponseTo :: "RconPacket \<Rightarrow> RconPacket option \<Rightarrow> js_error + bool" where
  "inResponseTo this pkt =
     (case pkt of
        None \<Rightarrow> Inr False
      | Some q \<Rightarrow>
         (case id_pkt q of
            Inl e \<Rightarrow> Inl e
          | Inr qid \<Rightarrow>
             (case id_pkt this of
                Inl e \<Rightarrow> Inl e
              | Inr tid \<Rightarrow>
                 if qid \<noteq> tid then Inr False
                 else
                   (case type_pkt this of
                      Inl e \<Rightarrow> Inl e
                    | Inr tt \<Rightarrow>
                       if tt = SERVERDATA_AUTH_RESPONSE then
                         (case type_pkt q of
                            Inl e \<Rightarrow> Inl e
                          | Inr qt \<Rightarrow> Inr (qt = SERVERDATA_AUTH))
                       else if tt = SERVERDATA_RESPONSE_VALUE then
                         (case type_pkt q of
                            Inl e \<Rightarrow> Inl e
                          | Inr qt \<Rightarrow> Inr (qt = SERVERDATA_EXECCOMMAND \<or> qt = BOUNDARY))
                       else Inr False))))"

section \<open>cloneErrorProperties\<close>

text \<open>
  Every own enumerable property of \<open>original\<close> except \<open>message\<close> and \<open>stack\<close> is
  assigned to \<open>target\<close>; assigning to a key that exists replaces its value in place.
\<close>

fun assign :: "jsstring \<Rightarrow> jsstring \<Rightarrow> (jsstring \<times> jsstring) list \<Rightarrow> (jsstring \<times> jsstring) list" where
  "assign k v [] = [(k, v)]"
| "assign k v ((k', v') # ps) = (if k' = k then (k, v) # ps else (k', v') # assign k v ps)"

definition cloneErrorProperties :: "js_error \<Rightarrow> js_error \<Rightarrow> js_error" where
  "cloneErrorProperties original target =
     JsError (err_name target) (err_message target)
       (foldl (\<lambda>ps (k, v). if k \<in> set [str ''message'', str ''stack''] then ps else assign k v ps)
          (err_props target) (err_props original))"

section \<open>QueuedRconConnection\<close>

text \<open>
  The connection is an object driven by calls and by the callbacks of its socket and
  its timer.  The model is a state and one function per method; a callback of the
  runtime is an event that runs the method on the state.  Each event is handled to
  its end before the next one (one turn of the event loop, with the promise reactions
  it queues).

  A promise is named by who waits for it.  The promise that \<open>sendPacket\<close> returns is
  awaited either by a call of \<open>send\<close> (numbered by the state's count of such calls) or
  by \<open>authenticate\<close>, itself awaited by the handler of one connect promise (numbered by
  the count of connect promises).
\<close>

datatype caller = ForSend nat | ForAuth nat

record Command =
  packet :: RconPacket
  boundary :: "RconPacket option"
  data :: "RconPacket list"
  cmd_timeout :: int
  callbacks :: caller
  sent :: bool

text \<open>The listener for the socket's \<open>error\<close> event: none on a new socket, then
  \<open>handleConnectionError\<close> of one connect promise, then \<open>handleError\<close>.\<close>

datatype socket_phase = Created | Connecting nat | Open

record Socket =
  written :: "byte list list"
  destroyed :: bool
  phase :: socket_phase

record Timer =
  delay :: int
  armed :: bool

record ConnectionOptions =
  opt_host :: jsstring
  opt_port :: int
  opt_password :: jsstring
  opt_timeout :: "int option"

record SendOptions =
  so_timeout :: "int option"
  multipacket :: "bool option"

text \<open>What the program lets its callers and the runtime observe.\<close>

datatype notice =
    Settled caller "js_error + RconPacket list"
  | SendResult nat "js_error + jsstring"
  | ConnectResult nat "js_error + unit"
  | Uncaught js_error

text \<open>
  The fields of the object (\<open>$socket\<close>, \<open>$connected\<close>, \<open>$connectPromise\<close>,
  \<open>$nextPacketId\<close>, \<open>$responseTimeoutId\<close>, \<open>$queue\<close>), and its surroundings: the
  timers made by \<open>setTimeout\<close> (a handle is an index), the number of connect
  promises and of \<open>send\<close> calls so far, the calls of the client wrapper that wait for
  a connect promise, and the notices.
\<close>

record QueuedRconConnection =
  host :: jsstring
  port :: int
  timeout :: int
  password :: jsstring
  socket :: "Socket option"
  connected :: bool
  connectPromise :: "nat option"
  nextPacketId_field :: int
  responseTimeoutId :: "nat option"
  queue :: "Command list"
  timers :: "Timer list"
  promises :: nat
  calls :: nat
  waiters :: "(nat \<times> nat \<times> jsstring \<times> SendOptions option) list"
  notices :: "notice list"

definition logprefix :: "QueuedRconConnection \<Rightarrow> jsstring" where
  "logprefix c = str ''RCON '' @ host c @ str '':'' @ Number_toString (port c)"

text \<open>The getter \<open>nextPacketId\<close> increments the field before it reads it.\<close>

definition nextPacketId :: "QueuedRconConnection \<Rightarrow> int \<times> QueuedRconConnection" where
  "nextPacketId c =
     (let n = nextPacketId_field c + 1
      in if n > 2 ^ 31 then (1, c\<lparr>nextPacketId_field := 1\<rparr>) else (n, c\<lparr>nextPacketId_field := n\<rparr>))"

text \<open>
  The constructor.  \<open>options.timeout\<close> is absent or an integer:
  \<open>parseInt(String(t))\<close> is then \<open>NaN\<close> or \<open>t\<close>, and it counts as true unless it is
  \<open>NaN\<close> or 0.
\<close>

definition parseInt_String :: "int option \<Rightarrow> int option" where
  "parseInt_String t = t"

definition truthy :: "int option \<Rightarrow> bool" where
  "truthy n = (case n of None \<Rightarrow> False | Some v \<Rightarrow> v \<noteq> 0)"

definition constructor :: "ConnectionOptions \<Rightarrow> QueuedRconConnection" where
  "constructor options =
     \<lparr>host = opt_host options, port = opt_port options,
      timeout = (case opt_timeout options of
                   None \<Rightarrow> 5000
                 | Some t \<Rightarrow> if truthy (parseInt_String (Some t)) then max t 0 else 5000),
      password = opt_password options,
      socket = None, connected = False, connectPromise = None, nextPacketId_field = 0,
      responseTimeoutId = None, queue = [],
      timers = [], promises = 0, calls = 0, waiters = [], notices = []\<rparr>"

definition notify :: "notice \<Rightarrow> QueuedRconConnection \<Rightarrow> QueuedRconConnection" where
  "notify n c = c\<lparr>notices := notices c @ [n]\<rparr>"

subsection \<open>The response timer\<close>

text \<open>
  \<open>startResponseTimeout(time)\<close> makes a timer whatever \<open>time\<close> is.  The timer's
  callback is the event \<open>TimerFire\<close> below.
\<close>

definition startResponseTimeout :: "int \<Rightarrow> QueuedRconConnection \<Rightarrow> QueuedRconConnection" where
  "startResponseTimeout time c =
     (if queue c = [] then c
      else c\<lparr>responseTimeoutId := Some (length (timers c)),
             timers := timers c @ [\<lparr>delay = time, armed = True\<rparr>]\<rparr>)"

text \<open>\<open>refresh()\<close> arms the timer again, also one that has fired.\<close>

definition refreshResponseTimeout :: "QueuedRconConnection \<Rightarrow> QueuedRconConnection" where
  "refreshResponseTimeout c =
     (case responseTimeoutId c of
        None \<Rightarrow> c
      | Some h \<Rightarrow>
         if h < length (timers c) then c\<lparr>timers := (timers c)[h := (timers c ! h)\<lparr>armed := True\<rparr>]\<rparr>
         else c)"

definition clearTimeout :: "QueuedRconConnection \<Rightarrow> QueuedRconConnection" where
  "clearTimeout c =
     (case responseTimeoutId c of
        None \<Rightarrow> c
      | Some h \<Rightarrow>
         (if h < length (timers c) then c\<lparr>timers := (timers c)[h := (timers c ! h)\<lparr>armed := False\<rparr>]\<rparr>
          else c)\<lparr>responseTimeoutId := None\<rparr>)"

subsection \<open>The queue\<close>

definition queuePacket :: "Command \<Rightarrow> QueuedRconConnection \<Rightarrow> QueuedRconConnection" where
  "queuePacket command c = c\<lparr>queue := queue c @ [command\<lparr>data := [], sent := False\<rparr>]\<rparr>"

text \<open>\<open>processQueue()\<close>.  Writing to the socket reads \<open>this.$socket\<close>, which raises
  when the field is null.\<close>

definition socket_write :: "byte list \<Rightarrow> Socket \<Rightarrow> Socket" where
  "socket_write buf s = s\<lparr>written := written s @ [buf]\<rparr>"

definition processQueue :: "QueuedRconConnection \<Rightarrow> js_error + QueuedRconConnection" where
  "processQueue c =
     (case queue c of
        [] \<Rightarrow> Inr c
      | command # rest \<Rightarrow>
         if sent command then Inr c
         else
           (case socket c of
              None \<Rightarrow> Inl ERR_NULL_ACCESS
            | Some s \<Rightarrow>
               let s1 = socket_write (buffer (packet command)) s;
                   s2 = (case boundary command of None \<Rightarrow> s1 | Some b \<Rightarrow> socket_write (buffer b) s1)
               in Inr (startResponseTimeout (cmd_timeout command)
                        (c\<lparr>socket := Some s2, queue := command\<lparr>sent := True\<rparr> # rest\<rparr>))))"

text \<open>
  \<open>sendPacket(type, payload, options)\<close> for the caller \<open>k\<close>.  The result is the error
  that rejects its promise at once, if any: a packet that cannot be built (nothing is
  queued then), or a dispatch that raises (the command stays queued).
\<close>

definition sendPacket ::
  "caller \<Rightarrow> PacketType \<Rightarrow> jsstring \<Rightarrow> SendOptions option \<Rightarrow> QueuedRconConnection
   \<Rightarrow> js_error option \<times> QueuedRconConnection" where
  "sendPacket k t pl options c =
     (let (i, c1) = nextPacketId c
      in case pack i t pl of
           Inl e \<Rightarrow> (Some e, c1)
         | Inr pkt \<Rightarrow>
            let (b, c2) =
                  (if (case options of None \<Rightarrow> False | Some opts \<Rightarrow> multipacket opts = Some True)
                   then (let (j, c2) = nextPacketId c1 in (Some (pack j BOUNDARY []), c2))
                   else (None, c1))
            in case b of
                 Some (Inl e) \<Rightarrow> (Some e, c2)
               | _ \<Rightarrow>
                  let c3 = queuePacket
                        \<lparr>packet = pkt,
                         boundary = (case b of Some (Inr bp) \<Rightarrow> Some bp | _ \<Rightarrow> None),
                         data = [],
                         cmd_timeout =
                           (case options of
                              None \<Rightarrow> timeout c2
                            | Some opts \<Rightarrow> (case so_timeout opts of None \<Rightarrow> timeout c2 | Some v \<Rightarrow> v)),
                         callbacks = k, sent = False\<rparr> c2
                  in case processQueue c3 of Inl e \<Rightarrow> (Some e, c3) | Inr c4 \<Rightarrow> (None, c4))"

subsection \<open>send\<close>

text \<open>A promise settles once: a second result for the same promise is dropped.\<close>

definition send_settled :: "nat \<Rightarrow> QueuedRconConnection \<Rightarrow> bool" where
  "send_settled n c = (\<exists>r \<in> set (notices c). case r of SendResult m _ \<Rightarrow> m = n | _ \<Rightarrow> False)"

definition connect_settled :: "nat \<Rightarrow> QueuedRconConnection \<Rightarrow> bool" where
  "connect_settled n c = (\<exists>r \<in> set (notices c). case r of ConnectResult m _ \<Rightarrow> m = n | _ \<Rightarrow> False)"

definition settle_send :: "nat \<Rightarrow> js_error + jsstring \<Rightarrow> QueuedRconConnection \<Rightarrow> QueuedRconConnection" where
  "settle_send n r c = (if send_settled n c then c else notify (SendResult n r) c)"

definition settle_connect :: "nat \<Rightarrow> js_error + unit \<Rightarrow> QueuedRconConnection \<Rightarrow> QueuedRconConnection" where
  "settle_connect n r c = (if connect_settled n c then c else notify (ConnectResult n r) c)"

text \<open>The rest of \<open>send\<close> after \<open>await this.sendPacket(...)\<close>: the payloads of the
  responses, concatenated.\<close>

definition send_responses :: "js_error + RconPacket list \<Rightarrow> js_error + jsstring" where
  "send_responses r =
     (case r of
        Inl e \<Rightarrow> Inl e
      | Inr responses \<Rightarrow> Inr (foldl (\<lambda>response pkt. response @ payload pkt) [] responses))"

definition NOT_CONNECTED :: js_error where
  "NOT_CONNECTED = JsError Error (str ''QueuedRconConnection socket is not connected'') []"

text \<open>\<open>send(cmd, options)\<close>, as the call numbered \<open>n\<close>.\<close>

definition send :: "nat \<Rightarrow> jsstring \<Rightarrow> SendOptions option \<Rightarrow> QueuedRconConnection \<Rightarrow> QueuedRconConnection" where
  "send n cmd options c =
     (if \<not> connected c then settle_send n (Inl NOT_CONNECTED) c
      else
        (case sendPacket (ForSend n) SERVERDATA_EXECCOMMAND cmd options c of
           (Some e, c1) \<Rightarrow> settle_send n (Inl e) c1
         | (None, c1) \<Rightarrow> c1))"

subsection \<open>connect, disconnect, authenticate\<close>

definition disconnect :: "QueuedRconConnection \<Rightarrow> QueuedRconConnection" where
  "disconnect c = c\<lparr>connected := False, socket := None, connectPromise := None\<rparr>"

text \<open>\<open>{ ...options, multipacket: true }\<close>\<close>

definition spread_multipacket :: "SendOptions option \<Rightarrow> SendOptions" where
  "spread_multipacket options =
     \<lparr>so_timeout = (case options of None \<Rightarrow> None | Some opts \<Rightarrow> so_timeout opts),
      multipacket = Some True\<rparr>"

text \<open>
  The calls of \<open>RconClient.send\<close> that wait for connect promise \<open>n\<close> go on when it is
  settled: with the error if it is rejected, else with the connection's \<open>send\<close>.
\<close>

fun resume ::
  "js_error + unit \<Rightarrow> (nat \<times> jsstring \<times> SendOptions option) list \<Rightarrow> QueuedRconConnection
   \<Rightarrow> QueuedRconConnection" where
  "resume r [] c = c"
| "resume r ((m, cmd, options) # ws) c =
     resume r ws
       (case r of
          Inl e \<Rightarrow> settle_send m (Inl e) c
        | Inr _ \<Rightarrow> send m cmd (Some (spread_multipacket options)) c)"

definition settle_connect_resume ::
  "nat \<Rightarrow> js_error + unit \<Rightarrow> QueuedRconConnection \<Rightarrow> QueuedRconConnection" where
  "settle_connect_resume n r c =
     (let c1 = settle_connect n r c;
          mine = map snd (filter (\<lambda>w. fst w = n) (waiters c1));
          c2 = c1\<lparr>waiters := filter (\<lambda>w. fst w \<noteq> n) (waiters c1)\<rparr>
      in resume r mine c2)"

text \<open>
  The error that \<open>handleConnectionError\<close> and \<open>handleError\<close> pass on: a new error
  with the endpoint before the message, and the properties of the original.
  \<open>handleConnectionError\<close> of connect promise \<open>n\<close> is \<open>disconnect()\<close>, then
  \<open>reject\<close>.
\<close>

definition connection_error :: "QueuedRconConnection \<Rightarrow> js_error \<Rightarrow> js_error" where
  "connection_error c err =
     cloneErrorProperties err (JsError Error (logprefix c @ str '' '' @ err_message err) [])"

definition handleConnectionError :: "nat \<Rightarrow> js_error \<Rightarrow> QueuedRconConnection \<Rightarrow> QueuedRconConnection" where
  "handleConnectionError n err c =
     settle_connect_resume n (Inl (connection_error c err)) (disconnect c)"

text \<open>
  \<open>authenticate()\<close> after \<open>await this.sendPacket(...)\<close>, given what the promise
  settled with: the first response is taken from the array and its type is checked.
\<close>

definition AUTH_FAILED :: "QueuedRconConnection \<Rightarrow> jsstring \<Rightarrow> js_error" where
  "AUTH_FAILED c description =
     JsError Error
       (logprefix c @ str '' Authentication Failed - Unexpected response ('' @ description @ str '')'') []"

definition authenticate_response ::
  "QueuedRconConnection \<Rightarrow> js_error + RconPacket list \<Rightarrow> js_error + unit" where
  "authenticate_response c r =
     (case r of
        Inl e \<Rightarrow> Inl e
      | Inr [] \<Rightarrow> Inl ERR_NULL_ACCESS
      | Inr (authResponse # _) \<Rightarrow>
         (case type_pkt authResponse of
            Inl e \<Rightarrow> Inl e
          | Inr t \<Rightarrow>
             if t \<noteq> SERVERDATA_AUTH_RESPONSE then
               (case toString authResponse of
                  Inl e \<Rightarrow> Inl e
                | Inr description \<Rightarrow> Inl (AUTH_FAILED c description))
             else Inr ()))"

text \<open>
  \<open>handleConnect\<close> of connect promise \<open>n\<close> after \<open>await this.authenticate()\<close>:
  success sets \<open>$connected\<close> and resolves; an error goes to
  \<open>handleConnectionError\<close>; \<open>finally\<close> clears \<open>$connectPromise\<close> (which
  \<open>disconnect()\<close> has done already on an error).  It runs once: with it the connect
  promise is settled.
\<close>

definition handleConnect_authenticated ::
  "nat \<Rightarrow> js_error + unit \<Rightarrow> QueuedRconConnection \<Rightarrow> QueuedRconConnection" where
  "handleConnect_authenticated n r c =
     (if connect_settled n c then c
      else
        (case r of
           Inr _ \<Rightarrow> settle_connect_resume n (Inr ()) (c\<lparr>connected := True, connectPromise := None\<rparr>)
         | Inl err \<Rightarrow> handleConnectionError n err c))"

text \<open>What follows when the promise of \<open>sendPacket\<close> for caller \<open>k\<close> settles.\<close>

definition continue :: "caller \<Rightarrow> js_error + RconPacket list \<Rightarrow> QueuedRconConnection \<Rightarrow> QueuedRconConnection" where
  "continue k r c =
     (case k of
        ForSend n \<Rightarrow> settle_send n (send_responses r) c
      | ForAuth n \<Rightarrow> handleConnect_authenticated n (authenticate_response c r) c)"

definition authenticate :: "nat \<Rightarrow> QueuedRconConnection \<Rightarrow> QueuedRconConnection" where
  "authenticate n c =
     (case sendPacket (ForAuth n) SERVERDATA_AUTH (password c) None c of
        (Some e, c1) \<Rightarrow> continue (ForAuth n) (Inl e) c1
      | (None, c1) \<Rightarrow> c1)"

text \<open>\<open>handleConnect\<close> of connect promise \<open>n\<close>, the callback of the socket's
  \<open>connect\<close>: the error listener is exchanged, then \<open>authenticate()\<close> starts.\<close>

definition handleConnect :: "nat \<Rightarrow> QueuedRconConnection \<Rightarrow> QueuedRconConnection" where
  "handleConnect n c =
     (case socket c of
        None \<Rightarrow> notify (Uncaught ERR_NULL_ACCESS) c
      | Some s \<Rightarrow> authenticate n (c\<lparr>socket := Some (s\<lparr>phase := Open\<rparr>)\<rparr>))"

datatype connecting = Returned | Pending nat

definition new_Socket :: Socket where
  "new_Socket = \<lparr>written = [], destroyed = False, phase = Created\<rparr>"

text \<open>\<open>connect()\<close>: it returns at once, or it returns a connect promise, a new one
  after registering the listeners and starting the socket's connect.\<close>

definition connect :: "QueuedRconConnection \<Rightarrow> connecting \<times> QueuedRconConnection" where
  "connect c =
     (let c1 = (if (case socket c of None \<Rightarrow> True | Some s \<Rightarrow> destroyed s)
                then c\<lparr>socket := Some new_Socket, connected := False\<rparr> else c)
      in case connectPromise c1 of
           Some n \<Rightarrow> (Pending n, c1)
         | None \<Rightarrow>
            if connected c1 then (Returned, c1)
            else
              let n = promises c1
              in (Pending n,
                  c1\<lparr>connectPromise := Some n, promises := n + 1,
                     socket := map_option (\<lambda>s. s\<lparr>phase := Connecting n\<rparr>) (socket c1)\<rparr>))"

subsection \<open>The handlers of the socket and of the timer\<close>

definition callback :: "caller \<Rightarrow> js_error + RconPacket list \<Rightarrow> QueuedRconConnection \<Rightarrow> QueuedRconConnection" where
  "callback k r c = notify (Settled k r) c"

text \<open>
  The \<open>try\<close> and \<open>catch\<close> of \<open>handleData\<close> for the head \<open>command\<close>: the state
  after them, and what the command's \<open>onSuccess\<close> or \<open>onError\<close> was called with, if it
  was (then \<open>finished\<close> is true).
\<close>

definition handleData_try ::
  "RconPacket \<Rightarrow> Command \<Rightarrow> Command list \<Rightarrow> QueuedRconConnection
   \<Rightarrow> QueuedRconConnection \<times> (js_error + RconPacket list) option" where
  "handleData_try response command rest c =
     (case inResponseTo response (Some (packet command)) of
        Inl err \<Rightarrow> (callback (callbacks command) (Inl err) (c\<lparr>queue := rest\<rparr>), Some (Inl err))
      | Inr isResponse \<Rightarrow>
         let command1 = (if isResponse then command\<lparr>data := data command @ [response]\<rparr> else command);
             c1 = (if isResponse then refreshResponseTimeout (c\<lparr>queue := command1 # rest\<rparr>) else c)
         in case boundary command1 of
              Some b \<Rightarrow>
               (case inResponseTo response (Some b) of
                  Inl err \<Rightarrow> (callback (callbacks command1) (Inl err) (c1\<lparr>queue := rest\<rparr>), Some (Inl err))
                | Inr True \<Rightarrow>
                   (callback (callbacks command1) (Inr (data command1)) (c1\<lparr>queue := rest\<rparr>),
                    Some (Inr (data command1)))
                | Inr False \<Rightarrow> (c1, None))
            | None \<Rightarrow>
               if isResponse then
                 (callback (callbacks command1) (Inr (data command1)) (c1\<lparr>queue := rest\<rparr>),
                  Some (Inr (data command1)))
               else (c1, None))"

text \<open>\<open>handleData(buffer)\<close>: after \<open>try\<close> and \<open>catch\<close> the \<open>finally\<close> clears the
  timer if the command is finished and dispatches; then the finished command's caller
  goes on.  A dispatch that raises here is caught by nobody.\<close>

definition handleData :: "byte list \<Rightarrow> QueuedRconConnection \<Rightarrow> QueuedRconConnection" where
  "handleData buf c =
     (case queue c of
        [] \<Rightarrow> c
      | command # rest \<Rightarrow>
         let (c1, outcome) = handleData_try (RconPacket buf) command rest c;
             c2 = (if outcome \<noteq> None then clearTimeout c1 else c1);
             c3 = (case processQueue c2 of Inl e \<Rightarrow> notify (Uncaught e) c2 | Inr c' \<Rightarrow> c')
         in case outcome of None \<Rightarrow> c3 | Some r \<Rightarrow> continue (callbacks command) r c3)"

definition handleError :: "js_error \<Rightarrow> QueuedRconConnection \<Rightarrow> QueuedRconConnection" where
  "handleError err c =
     (case queue c of
        [] \<Rightarrow> c
      | command # rest \<Rightarrow>
         let r = Inl (connection_error c err)
         in continue (callbacks command) r (callback (callbacks command) r (c\<lparr>queue := rest\<rparr>)))"

text \<open>The callback that \<open>startResponseTimeout\<close> gives to \<open>setTimeout\<close>.  It does
  nothing else than take the head from the queue and call its \<open>onError\<close>.\<close>

definition TIMED_OUT :: "QueuedRconConnection \<Rightarrow> jsstring \<Rightarrow> js_error" where
  "TIMED_OUT c description =
     JsError Error (logprefix c @ str '' timed out (\"'' @ description @ str ''\")'') []"

definition responseTimeout :: "QueuedRconConnection \<Rightarrow> QueuedRconConnection" where
  "responseTimeout c =
     (case queue c of
        [] \<Rightarrow> c
      | command # rest \<Rightarrow>
         (case toString (packet command) of
            Inl e \<Rightarrow> notify (Uncaught e) (c\<lparr>queue := rest\<rparr>)
          | Inr description \<Rightarrow>
             let r = Inl (TIMED_OUT c description)
             in continue (callbacks command) r (callback (callbacks command) r (c\<lparr>queue := rest\<rparr>))))"

section \<open>RconClient\<close>

text \<open>\<open>RconClient.send(cmd, options)\<close>, as the call numbered \<open>n\<close>: it awaits
  \<open>connect()\<close> and then returns what the connection's \<open>send\<close> returns.\<close>

definition RconClient_send ::
  "nat \<Rightarrow> jsstring \<Rightarrow> SendOptions option \<Rightarrow> QueuedRconConnection \<Rightarrow> QueuedRconConnection" where
  "RconClient_send n cmd options c =
     (case connect c of
        (Returned, c1) \<Rightarrow> send n cmd (Some (spread_multipacket options)) c1
      | (Pending p, c1) \<Rightarrow> c1\<lparr>waiters := waiters c1 @ [(p, n, cmd, options)]\<rparr>)"

section \<open>Events\<close>

text \<open>
  What can happen to a connection: a call of its interface or of the client wrapper,
  a callback of its socket, a timer that fires.  A socket calls back only while it is
  not destroyed and has the listener; a timer fires only while it is armed.
\<close>

datatype event =
    Connect
  | Disconnect
  | Send jsstring "SendOptions option"
  | ClientSend jsstring "SendOptions option"
  | SocketConnect
  | SocketData "byte list"
  | SocketError js_error
  | SocketEnd
  | TimerFire nat

definition live_socket :: "QueuedRconConnection \<Rightarrow> Socket option" where
  "live_socket c = (case socket c of None \<Rightarrow> None | Some s \<Rightarrow> if destroyed s then None else Some s)"

fun step :: "event \<Rightarrow> QueuedRconConnection \<Rightarrow> QueuedRconConnection option" where
  "step Connect c = Some (snd (connect c))"
| "step Disconnect c = Some (disconnect c)"
| "step (Send cmd options) c = Some (send (calls c) cmd options (c\<lparr>calls := calls c + 1\<rparr>))"
| "step (ClientSend cmd options) c =
     Some (RconClient_send (calls c) cmd options (c\<lparr>calls := calls c + 1\<rparr>))"
| "step SocketConnect c =
     (case live_socket c of
        Some s \<Rightarrow> (case phase s of Connecting n \<Rightarrow> Some (handleConnect n c) | _ \<Rightarrow> None)
      | None \<Rightarrow> None)"
| "step (SocketData buf) c =
     (case live_socket c of
        Some s \<Rightarrow> (case phase s of Open \<Rightarrow> Some (handleData buf c) | _ \<Rightarrow> None)
      | None \<Rightarrow> None)"
| "step (SocketError err) c =
     (case live_socket c of
        Some s \<Rightarrow>
         (case phase s of
            Created \<Rightarrow> None
          | Connecting n \<Rightarrow> Some (handleConnectionError n err (c\<lparr>socket := Some (s\<lparr>destroyed := True\<rparr>)\<rparr>))
          | Open \<Rightarrow> Some (handleError err (c\<lparr>socket := Some (s\<lparr>destroyed := True\<rparr>)\<rparr>)))
      | None \<Rightarrow> None)"
| "step SocketEnd c =
     (case live_socket c of
        Some s \<Rightarrow> (case phase s of Open \<Rightarrow> Some (disconnect c) | _ \<Rightarrow> None)
      | None \<Rightarrow> None)"
| "step (TimerFire h) c =
     (if h < length (timers c) \<and> armed (timers c ! h)
      then Some (responseTimeout (c\<lparr>timers := (timers c)[h := (timers c ! h)\<lparr>armed := False\<rparr>]\<rparr>))
      else None)"

fun run :: "event list \<Rightarrow> QueuedRconConnection \<Rightarrow> QueuedRconConnection option" where
  "run [] c = Some c"
| "run (ev # evs) c = (case step ev c of None \<Rightarrow> None | Some c' \<Rightarrow> run evs c')"

inductive reachable :: "QueuedRconConnection \<Rightarrow> bool" where
  initial: "reachable (constructor options)"
| after: "reachable c \<Longrightarrow> step ev c = Some c' \<Longrightarrow> reachable c'"

section \<open>Collected responses\<close>

text \<open>The packets among the buffers received that are responses to the request \<open>q\<close>,
  in the order of arrival.\<close>

definition replies_to :: "RconPacket \<Rightarrow> byte list list \<Rightarrow> RconPacket list" where
  "replies_to q bufs =
     map RconPacket (filter (\<lambda>buf. inResponseTo (RconPacket buf) (Some q) = Inr True) bufs)"

section \<open>Scenarios\<close>

text \<open>
  A server endpoint, the frame with which the server accepts the password (type
  AUTH_RESPONSE, id 1), a frame of type RESPONSE_VALUE with the same id, the options
  that ask for a multi-packet response, and the connection once it is authenticated.
\<close>

definition endpoint :: ConnectionOptions where
  "endpoint = \<lparr>opt_host = str ''h'', opt_port = 27015, opt_password = str ''pw'', opt_timeout = None\<rparr>"

definition AUTH_OK :: "byte list" where
  "AUTH_OK = [10, 0, 0, 0, 1, 0, 0, 0, 2, 0, 0, 0, 0, 0]"

definition RESPONSE_TO_AUTH :: "byte list" where
  "RESPONSE_TO_AUTH = [10, 0, 0, 0, 1, 0, 0, 0, 0, 0, 0, 0, 0, 0]"

definition MULTI :: "SendOptions option" where
  "MULTI = Some \<lparr>so_timeout = None, multipacket = Some True\<rparr>"

definition established :: QueuedRconConnection where
  "established = the (run [Connect, SocketConnect, SocketData AUTH_OK] (constructor endpoint))"

section \<open>The queue discipline\<close>

text \<open>
  The callers of the commands completed so far, in the order of completion, followed
  by the callers of the commands that wait in the queue: the commands in the order
  in which they were submitted.
\<close>

fun completions :: "notice list \<Rightarrow> caller list" where
  "completions [] = []"
| "completions (Settled k r # ns) = k # completions ns"
| "completions (n # ns) = completions ns"

definition history :: "QueuedRconConnection \<Rightarrow> caller list" where
  "history c = completions (notices c) @ map callbacks (queue c)"

definition wire :: "QueuedRconConnection \<Rightarrow> byte list list" where
  "wire c = (case socket c of None \<Rightarrow> [] | Some s \<Rightarrow> written s)"

definition frames :: "Command \<Rightarrow> byte list list" where
  "frames x = buffer (packet x) # (case boundary x of None \<Rightarrow> [] | Some b \<Rightarrow> [buffer b])"



definition two_queued :: QueuedRconConnection where
  "two_queued =
     the (run [Connect, SocketConnect, SocketData AUTH_OK, Send (str ''status'') None,
               Send (str ''stats'') None] (constructor endpoint))"


text \<open>
  How a handler may change the queue and the completions, for the proofs: it leaves
  them, appends an unsent command (of a kind \<open>G\<close>), takes the head and reports it
  completed, or changes the head's \<open>data\<close> and \<open>sent\<close>; and any sequence of these.
\<close>

inductive evolves ::
  "(RconPacket \<Rightarrow> RconPacket option \<Rightarrow> caller \<Rightarrow> bool) \<Rightarrow> QueuedRconConnection \<Rightarrow> QueuedRconConnection \<Rightarrow> bool"
  for G where
    same: "queue c' = queue c \<Longrightarrow> completions (notices c') = completions (notices c) \<Longrightarrow> evolves G c c'"
  | push: "queue c' = queue c @ [x] \<Longrightarrow> \<not> sent x \<Longrightarrow> G (packet x) (boundary x) (callbacks x) \<Longrightarrow>
           completions (notices c') = completions (notices c) \<Longrightarrow> evolves G c c'"
  | pop: "queue c = x # rest \<Longrightarrow> queue c' = rest \<Longrightarrow>
          completions (notices c') = completions (notices c) @ [callbacks x] \<Longrightarrow> evolves G c c'"
  | head: "queue c = x # rest \<Longrightarrow> queue c' = x' # rest \<Longrightarrow> packet x' = packet x \<Longrightarrow>
           boundary x' = boundary x \<Longrightarrow> callbacks x' = callbacks x \<Longrightarrow>
           completions (notices c') = completions (notices c) \<Longrightarrow> evolves G c c'"
  | trans: "evolves G c c' \<Longrightarrow> evolves G c' c'' \<Longrightarrow> evolves G c c''"

definition tail_unsent :: "QueuedRconConnection \<Rightarrow> bool" where
  "tail_unsent c = (\<forall>x \<in> set (tl (queue c)). \<not> sent x)"

definition cmds_ok :: "(RconPacket \<Rightarrow> RconPacket option \<Rightarrow> caller \<Rightarrow> bool) \<Rightarrow> QueuedRconConnection \<Rightarrow> bool" where
  "cmds_ok G c = (\<forall>x \<in> set (queue c). G (packet x) (boundary x) (callbacks x))"

definition pushes ::
  "(RconPacket \<Rightarrow> RconPacket option \<Rightarrow> caller \<Rightarrow> bool) \<Rightarrow> caller \<Rightarrow> PacketType \<Rightarrow> jsstring \<Rightarrow> SendOptions option \<Rightarrow> bool" where
  "pushes G k t pl options =
     (\<forall>i p. pack i t pl = Inr p \<longrightarrow>
        (if (case options of None \<Rightarrow> False | Some opts \<Rightarrow> multipacket opts = Some True)
         then (\<forall>j bp. pack j BOUNDARY [] = Inr bp \<longrightarrow> G p (Some bp) k)
         else G p None k))"

definition client_ok :: "(RconPacket \<Rightarrow> RconPacket option \<Rightarrow> caller \<Rightarrow> bool) \<Rightarrow> bool" where
  "client_ok G = (\<forall>m cmd options. pushes G (ForSend m) SERVERDATA_EXECCOMMAND cmd (Some (spread_multipacket options)))"

definition auth_ok :: "(RconPacket \<Rightarrow> RconPacket option \<Rightarrow> caller \<Rightarrow> bool) \<Rightarrow> bool" where
  "auth_ok G = (\<forall>n pw. pushes G (ForAuth n) SERVERDATA_AUTH pw None)"

definition readable :: "RconPacket \<Rightarrow> RconPacket option \<Rightarrow> caller \<Rightarrow> bool" where
  "readable p b k = (12 \<le> length (buffer p))"


section \<open>The UTF-8 codec\<close>

lemma unat_byte: "n < 256 \<Longrightarrow> unat (of_nat n :: byte) = n"
  by (simp add: unat_of_nat)

lemma unat_unit_less: "unat (u :: 16 word) < 65536"
  using unsigned_less [of u, where 'a = nat] by simp


lemma base64_digits:
  fixes c :: nat
  obtains d0 d1 d2 d3 where
    "c mod 64 = d0" "c div 64 mod 64 = d1" "c div 4096 mod 64 = d2" "c div 262144 = d3"
    "c div 64 = d3 * 4096 + d2 * 64 + d1" "c div 4096 = d3 * 64 + d2"
    "c = d3 * 262144 + d2 * 4096 + d1 * 64 + d0" "d0 < 64" "d1 < 64" "d2 < 64"
proof -
  have a: "c div 4096 = c div 64 div 64" "c div 262144 = c div 4096 div 64"
    using div_mult2_eq [of c 64 64] div_mult2_eq [of c 4096 64] by simp_all
  have s0: "c = c div 64 * 64 + c mod 64" by simp
  have s1: "c div 64 = c div 4096 * 64 + c div 64 mod 64" unfolding a by simp
  have s2: "c div 4096 = c div 262144 * 64 + c div 4096 mod 64" unfolding a by simp
  have b: "c mod 64 < 64" "c div 64 mod 64 < 64" "c div 4096 mod 64 < 64" by simp_all
  define d0 d1 d2 d3 where "d0 = c mod 64" and "d1 = c div 64 mod 64"
    and "d2 = c div 4096 mod 64" and "d3 = c div 262144"
  note d = d0_def [symmetric] d1_def [symmetric] d2_def [symmetric] d3_def [symmetric]
  have t2: "c div 4096 = d3 * 64 + d2" using s2 unfolding d .
  have t1: "c div 64 = d3 * 4096 + d2 * 64 + d1" using s1 unfolding t2 d by (simp add: algebra_simps)
  have t0: "c = d3 * 262144 + d2 * 4096 + d1 * 64 + d0" using s0 unfolding t1 d by (simp add: algebra_simps)
  show thesis
    using that [OF d t1 t2 t0] b unfolding d by blast
qed


lemma decode_step1:
  "unat b < 0x80 \<Longrightarrow> utf8_decode (b # rest) = of_nat (unat b) # utf8_decode rest"
  by simp

lemma decode_step2:
  "0xC2 \<le> unat b \<Longrightarrow> unat b \<le> 0xDF \<Longrightarrow> cont b1 \<Longrightarrow>
   utf8_decode (b # b1 # rest) =
     utf16_of_cp ((unat b - 0xC0) * 64 + (unat b1 - 0x80)) @ utf8_decode rest"
  by simp

lemma decode_step3:
  "0xE0 \<le> unat b \<Longrightarrow> unat b \<le> 0xEF \<Longrightarrow> second_ok b b1 \<Longrightarrow> cont b2 \<Longrightarrow>
   utf8_decode (b # b1 # b2 # rest) =
     utf16_of_cp ((unat b - 0xE0) * 4096 + (unat b1 - 0x80) * 64 + (unat b2 - 0x80))
     @ utf8_decode rest"
  by simp

lemma decode_step4:
  "0xF0 \<le> unat b \<Longrightarrow> unat b \<le> 0xF4 \<Longrightarrow> second_ok b b1 \<Longrightarrow> cont b2 \<Longrightarrow> cont b3 \<Longrightarrow>
   utf8_decode (b # b1 # b2 # b3 # rest) =
     utf16_of_cp ((unat b - 0xF0) * 262144 + (unat b1 - 0x80) * 4096
                  + (unat b2 - 0x80) * 64 + (unat b3 - 0x80))
     @ utf8_decode rest"
  by simp

declare utf8_decode.simps(2) [simp del]

lemma decode_1byte:
  assumes "c < 0x80"
  shows "utf8_decode (utf8_of_cp c @ rest) = of_nat c # utf8_decode rest"
proof -
  from assms have "unat (of_nat c :: byte) = c" by (intro unat_byte) simp
  with assms decode_step1 [of "of_nat c" rest] show ?thesis
    by (simp add: utf8_of_cp_def)
qed

lemma decode_2byte:
  assumes "0x80 \<le> c" "c < 0x800"
  shows "utf8_decode (utf8_of_cp c @ rest) = of_nat c # utf8_decode rest"
proof -
  obtain d0 d1 d2 d3 where d: "c mod 64 = d0" "c div 64 = d3 * 4096 + d2 * 64 + d1"
    and c: "c = d3 * 262144 + d2 * 4096 + d1 * 64 + d0" and l: "d0 < 64" "d1 < 64" "d2 < 64"
    by (rule base64_digits [of c])
  from assms c l have z: "d3 = 0" "d2 = 0" by linarith+
  from assms c l have r: "2 \<le> d1" "d1 < 32" unfolding z by linarith+
  define b0 :: byte where "b0 = of_nat (0xC0 + d1)"
  define b1 :: byte where "b1 = of_nat (0x80 + d0)"
  from r l have b: "unat b0 = 0xC0 + d1" "unat b1 = 0x80 + d0"
    unfolding b0_def b1_def by - (rule unat_byte, linarith)+
  have e: "utf8_of_cp c = [b0, b1]"
    using assms unfolding utf8_of_cp_def d z b0_def b1_def by simp
  have "0xC2 \<le> unat b0" "unat b0 \<le> 0xDF" "cont b1"
    unfolding b cont_def using r l by linarith+
  from decode_step2 [OF this, of rest] show ?thesis
    unfolding e b using assms c z by (simp add: utf16_of_cp_def)
qed

lemma decode_3byte:
  assumes "0x800 \<le> c" "c < 0x10000" "\<not> (0xD800 \<le> c \<and> c \<le> 0xDFFF)"
  shows "utf8_decode (utf8_of_cp c @ rest) = of_nat c # utf8_decode rest"
proof -
  obtain d0 d1 d2 d3 where d: "c mod 64 = d0" "c div 64 mod 64 = d1" "c div 4096 = d3 * 64 + d2"
    and c: "c = d3 * 262144 + d2 * 4096 + d1 * 64 + d0" and l: "d0 < 64" "d1 < 64" "d2 < 64"
    by (rule base64_digits [of c])
  from assms c l have z: "d3 = 0" by linarith
  from assms c l have r: "d2 < 16" "d2 = 0 \<longrightarrow> 32 \<le> d1" "d2 = 13 \<longrightarrow> d1 < 32"
    unfolding z by auto
  define b0 :: byte where "b0 = of_nat (0xE0 + d2)"
  define b1 :: byte where "b1 = of_nat (0x80 + d1)"
  define b2 :: byte where "b2 = of_nat (0x80 + d0)"
  from r l have b: "unat b0 = 0xE0 + d2" "unat b1 = 0x80 + d1" "unat b2 = 0x80 + d0"
    unfolding b0_def b1_def b2_def by - (rule unat_byte, linarith)+
  have e: "utf8_of_cp c = [b0, b1, b2]"
    using assms unfolding utf8_of_cp_def d z b0_def b1_def b2_def by simp
  have "0xE0 \<le> unat b0" "unat b0 \<le> 0xEF" "second_ok b0 b1" "cont b2"
    unfolding b cont_def second_ok_def using r l by auto
  from decode_step3 [OF this, of rest] show ?thesis
    unfolding e b using assms c z by (simp add: utf16_of_cp_def)
qed

lemma decode_4byte:
  assumes "0x10000 \<le> c" "c < 0x110000"
  shows "utf8_decode (utf8_of_cp c @ rest) = utf16_of_cp c @ utf8_decode rest"
proof -
  obtain d0 d1 d2 d3 where d: "c mod 64 = d0" "c div 64 mod 64 = d1" "c div 4096 mod 64 = d2"
      "c div 262144 = d3"
    and c: "c = d3 * 262144 + d2 * 4096 + d1 * 64 + d0" and l: "d0 < 64" "d1 < 64" "d2 < 64"
    by (rule base64_digits [of c])
  from assms c l have r: "d3 \<le> 4" "d3 = 0 \<longrightarrow> 16 \<le> d2" "d3 = 4 \<longrightarrow> d2 < 16"
    by auto
  define b0 :: byte where "b0 = of_nat (0xF0 + d3)"
  define b1 :: byte where "b1 = of_nat (0x80 + d2)"
  define b2 :: byte where "b2 = of_nat (0x80 + d1)"
  define b3 :: byte where "b3 = of_nat (0x80 + d0)"
  from r l have b: "unat b0 = 0xF0 + d3" "unat b1 = 0x80 + d2" "unat b2 = 0x80 + d1"
    "unat b3 = 0x80 + d0"
    unfolding b0_def b1_def b2_def b3_def by - (rule unat_byte, linarith)+
  have e: "utf8_of_cp c = [b0, b1, b2, b3]"
    using assms unfolding utf8_of_cp_def d b0_def b1_def b2_def b3_def by simp
  have "0xF0 \<le> unat b0" "unat b0 \<le> 0xF4" "second_ok b0 b1" "cont b2" "cont b3"
    unfolding b cont_def second_ok_def using r l by auto
  from decode_step4 [OF this, of rest] show ?thesis
    unfolding e b using c by simp
qed

lemma decode_cp:
  assumes "c < 0x10000" "\<not> (0xD800 \<le> c \<and> c \<le> 0xDFFF)"
  shows "utf8_decode (utf8_of_cp c @ rest) = of_nat c # utf8_decode rest"
  using assms decode_1byte [of c rest] decode_2byte [of c rest] decode_3byte [of c rest]
  by linarith

lemma cp_of_pair_range:
  assumes "is_high u" "is_low v"
  shows "0x10000 \<le> cp_of_pair u v \<and> cp_of_pair u v < 0x110000"
  using assms unfolding cp_of_pair_def is_high_def is_low_def by linarith

lemma utf16_of_pair:
  assumes "is_high u" "is_low v"
  shows "utf16_of_cp (cp_of_pair u v) = [u, v]"
proof -
  define h l where "h = unat u - 0xD800" and "l = unat v - 0xDC00"
  from assms have hl: "l < 0x400" "unat u = 0xD800 + h" "unat v = 0xDC00 + l"
    unfolding h_def l_def is_high_def is_low_def by linarith+
  have "cp_of_pair u v - 0x10000 = h * 0x400 + l"
    by (simp add: cp_of_pair_def h_def l_def)
  with hl have "(cp_of_pair u v - 0x10000) div 0x400 = h" "(cp_of_pair u v - 0x10000) mod 0x400 = l"
    by simp_all
  moreover have "\<not> cp_of_pair u v < 0x10000" by (simp add: cp_of_pair_def)
  ultimately show ?thesis
    by (simp only: utf16_of_cp_def if_False hl(2,3) [symmetric] of_nat_unat ucast_id)
qed

lemma decode_unit:
  assumes "\<not> is_high u" "\<not> is_low u"
  shows "utf8_decode (utf8_of_cp (unat u) @ rest) = u # utf8_decode rest"
proof -
  from assms have "\<not> (0xD800 \<le> unat u \<and> unat u \<le> 0xDFFF)"
    by (auto simp add: is_high_def is_low_def)
  from decode_cp [OF unat_unit_less this, of rest] show ?thesis
    by (simp only: of_nat_unat ucast_id)
qed

lemma utf8_roundtrip: "well_formed s \<Longrightarrow> utf8_decode (utf8_encode s) = s"
proof (induction s rule: utf8_encode.induct)
  case 1
  then show ?case by simp
next
  case (2 u)
  then show ?case using decode_unit [of u "[]"] by simp
next
  case (3 u v us)
  show ?case
  proof (cases "is_high u")
    case True
    with 3 have "is_low v" "well_formed us" by simp_all
    with True 3 show ?thesis
      using decode_4byte [of "cp_of_pair u v" "utf8_encode us"] cp_of_pair_range [of u v]
        utf16_of_pair [of u v]
      by simp
  next
    case False
    with 3 have "\<not> is_low u" "well_formed (v # us)" by simp_all
    with False 3 show ?thesis
      using decode_unit [of u "utf8_encode (v # us)"] by simp
  qed
qed

section \<open>32-bit fields\<close>

lemma int_digits:
  fixes v :: int
  obtains d0 d1 d2 d3 where
    "v mod 256 = d0" "v div 256 mod 256 = d1" "v div 65536 mod 256 = d2" "v div 16777216 = d3"
    "v = d3 * 16777216 + d2 * 65536 + d1 * 256 + d0"
    "0 \<le> d0" "d0 < 256" "0 \<le> d1" "d1 < 256" "0 \<le> d2" "d2 < 256"
proof -
  have a: "v div 65536 = v div 256 div 256" "v div 16777216 = v div 65536 div 256"
    using zdiv_zmult2_eq [of 256 v 256] zdiv_zmult2_eq [of 256 v 65536] by simp_all
  have s0: "v = v div 256 * 256 + v mod 256" by simp
  have s1: "v div 256 = v div 65536 * 256 + v div 256 mod 256" unfolding a by simp
  have s2: "v div 65536 = v div 16777216 * 256 + v div 65536 mod 256" unfolding a by simp
  have b: "0 \<le> v mod 256" "v mod 256 < 256" "0 \<le> v div 256 mod 256" "v div 256 mod 256 < 256"
    "0 \<le> v div 65536 mod 256" "v div 65536 mod 256 < 256" by simp_all
  define d0 d1 d2 d3 where "d0 = v mod 256" and "d1 = v div 256 mod 256"
    and "d2 = v div 65536 mod 256" and "d3 = v div 16777216"
  note d = d0_def [symmetric] d1_def [symmetric] d2_def [symmetric] d3_def [symmetric]
  have t2: "v div 65536 = d3 * 256 + d2" using s2 unfolding d .
  have t1: "v div 256 = d3 * 65536 + d2 * 256 + d1" using s1 unfolding t2 d by (simp add: algebra_simps)
  have t0: "v = d3 * 16777216 + d2 * 65536 + d1 * 256 + d0" using s0 unfolding t1 d by (simp add: algebra_simps)
  show thesis
    using that [OF d t0] b unfolding d by blast
qed

lemma int32LE_value_bytes:
  assumes "int32_ok v"
  shows "int32LE_value (word_of_int v) (word_of_int (v div 2 ^ 8)) (word_of_int (v div 2 ^ 16))
           (word_of_int (v div 2 ^ 24)) = v"
proof -
  obtain d0 d1 d2 d3 where d: "v mod 256 = d0" "v div 256 mod 256 = d1" "v div 65536 mod 256 = d2"
      "v div 16777216 = d3"
    and v: "v = d3 * 16777216 + d2 * 65536 + d1 * 256 + d0"
    and l: "0 \<le> d0" "d0 < 256" "0 \<le> d1" "d1 < 256" "0 \<le> d2" "d2 < 256"
    by (rule int_digits [of v])
  from assms v l have r: "- 128 \<le> d3" "d3 < 128"
    unfolding int32_ok_def by simp_all
  have u: "uint (word_of_int v :: byte) = d0" "uint (word_of_int (v div 256) :: byte) = d1"
    "uint (word_of_int (v div 65536) :: byte) = d2"
    using d by (simp_all add: uint_word_of_int)
  from r have "signed_take_bit 7 d3 = d3"
    by (intro signed_take_bit_int_eq_self) simp_all
  then have s: "sint (word_of_int (v div 16777216) :: byte) = d3"
    unfolding d by (simp add: signed_of_int)
  show ?thesis
    unfolding int32LE_value_def using u s v by simp
qed

section \<open>Properties of the packet codec\<close>

lemmas PacketType_defs =
  UNKNOWN_def SERVERDATA_AUTH_def SERVERDATA_AUTH_RESPONSE_def SERVERDATA_EXECCOMMAND_def
  SERVERDATA_RESPONSE_VALUE_def BOUNDARY_def PacketType_values_def


lemma length_int32LE_bytes [simp]: "length (int32LE_bytes v) = 4"
  by (simp add: int32LE_bytes_def)

lemma readInt32LE_at:
  assumes "int32_ok v" and "length pre = off"
  shows "readInt32LE (pre @ int32LE_bytes v @ post) off = Inr v"
proof -
  have "(pre @ int32LE_bytes v @ post) ! (off + k) = (int32LE_bytes v) ! k" if "k < 4" for k
    using that assms(2) by (simp add: nth_append)
  from this [of 0] this [of 1] this [of 2] this [of 3] assms(2)
  show ?thesis
    using int32LE_value_bytes [OF assms(1)]
    by (simp add: readInt32LE_def int32LE_bytes_def)
qed

lemma utf8_fit_all: "length (utf8_encode s) \<le> n \<Longrightarrow> utf8_fit n s = utf8_encode s"
proof (induction n s rule: utf8_fit.induct)
  case (1 n)
  then show ?case by simp
next
  case (2 n u)
  then show ?case by simp
next
  case (3 n u v us)
  then show ?case by (auto split: if_splits)
qed

lemma pack_buffer:
  assumes "int32_ok i" and "int32_ok t" and "int (byteLength pl) + 10 \<le> 2 ^ 31 - 1"
  shows "pack i t pl =
           Inr (RconPacket (int32LE_bytes (int (byteLength pl) + 10) @ int32LE_bytes i
                            @ int32LE_bytes t @ utf8_encode pl @ [0, 0]))"
proof -
  define n where "n = byteLength pl"
  have s: "int32_ok (int (n + 14) - 4)"
    using assms(3) by (simp add: int32_ok_def n_def)
  have f: "utf8_fit n pl = utf8_encode pl"
    by (rule utf8_fit_all) (simp add: n_def byteLength_def)
  have l: "length (utf8_encode pl) = n" by (simp add: n_def byteLength_def)
  have a: "int (n + 14) - 4 = int n + 10" by simp
  show ?thesis
    unfolding pack_def Let_def PACKET_FIXED_SIZE_def n_def [symmetric]
    using assms(1,2) s
    by (simp add: writeInt32LE_def writeInt16LE_def alloc_def store_def buffer_write_def f l a
        add.commute)
qed


lemma payload_at:
  assumes "length hd12 = 12" and "well_formed pl"
  shows "payload (RconPacket (hd12 @ utf8_encode pl @ [0, 0])) = pl"
  using assms utf8_roundtrip [of pl]
  by (auto simp add: payload_def buffer_toString_def Let_def)

lemma length_utf8_of_cp: "length (utf8_of_cp c) \<le> 4"
  by (simp add: utf8_of_cp_def)

lemma length_utf8_of_unit: "length (utf8_of_cp (unat (u :: 16 word))) \<le> 3"
  using unat_unit_less [of u] by (simp add: utf8_of_cp_def)

lemma byteLength_le: "byteLength s \<le> 3 * length s"
  unfolding byteLength_def
proof (induction s rule: utf8_encode.induct)
  case 1
  then show ?case by simp
next
  case (2 u)
  then show ?case using length_utf8_of_unit [of u] by (simp add: replacement_def)
next
  case (3 u v us)
  then show ?case
    using length_utf8_of_unit [of u] length_utf8_of_cp [of "cp_of_pair u v"]
    by (auto simp add: replacement_def)
qed

lemma byteLength_int32:
  assumes "length pl \<le> MAX_STRING_LENGTH"
  shows "int (byteLength pl) + 10 \<le> 2 ^ 31 - 1"
proof -
  have "byteLength pl \<le> 3 * MAX_STRING_LENGTH"
    using byteLength_le [of pl] assms by linarith
  then show ?thesis by (simp add: MAX_STRING_LENGTH_def)
qed

lemma pack_length:
  assumes "pack i t pl = Inr p"
  shows "length (buffer p) = byteLength pl + 14"
proof -
  have "utf8_fit (byteLength pl) pl = utf8_encode pl"
    by (rule utf8_fit_all) (simp add: byteLength_def)
  moreover have "length (utf8_encode pl) = byteLength pl"
    by (simp add: byteLength_def)
  ultimately show ?thesis
    using assms
    by (auto simp add: pack_def Let_def PACKET_FIXED_SIZE_def writeInt32LE_def writeInt16LE_def
        alloc_def store_def buffer_write_def split: if_splits)
qed

text \<open>
  Claim C1.  For every id in the int32 range, every type of the enumeration and every
  well-formed string \<open>pl\<close> (UTF-16 without lone surrogates, that is, text that UTF-8
  can carry; NUL characters are allowed) that the runtime can hold, building a packet
  succeeds, and reading the packet's buffer back gives the same id, type and payload
  and the size \<open>10 + byteLength pl\<close>.
\<close>

theorem pack_roundtrip:
  assumes "int32_ok i" and "t \<in> set PacketType_values" and "well_formed pl"
    and "length pl \<le> MAX_STRING_LENGTH"
  shows "\<exists>p. pack i t pl = Inr p \<and> id_pkt p = Inr i \<and> type_pkt p = Inr t \<and> payload p = pl
             \<and> size_pkt p = Inr (10 + int (byteLength pl))"
proof -
  note n = byteLength_int32 [OF assms(4)]
  from assms(2) have t: "int32_ok t"
    by (auto simp add: PacketType_defs int32_ok_def)
  from n have s: "int32_ok (int (byteLength pl) + 10)"
    by (simp add: int32_ok_def)
  let ?b = "int32LE_bytes (int (byteLength pl) + 10) @ int32LE_bytes i @ int32LE_bytes t
            @ utf8_encode pl @ [0, 0]"
  have p: "pack i t pl = Inr (RconPacket ?b)"
    by (rule pack_buffer [OF assms(1) t n])
  have "size_pkt (RconPacket ?b) = Inr (int (byteLength pl) + 10)"
    using readInt32LE_at [OF s, of "[]" 0] by (simp add: size_pkt_def)
  moreover have "id_pkt (RconPacket ?b) = Inr i"
    using readInt32LE_at [OF assms(1), of "int32LE_bytes (int (byteLength pl) + 10)" 4]
    by (simp add: id_pkt_def)
  moreover have "readInt32LE ?b 8 = Inr t"
    using readInt32LE_at [OF t, of "int32LE_bytes (int (byteLength pl) + 10) @ int32LE_bytes i" 8]
    by simp
  then have "type_pkt (RconPacket ?b) = Inr t"
    using assms(2) by (simp add: type_pkt_def)
  moreover have "payload (RconPacket ?b) = pl"
    using payload_at [of "int32LE_bytes (int (byteLength pl) + 10) @ int32LE_bytes i @ int32LE_bytes t" pl]
      assms(3) by simp
  ultimately show ?thesis
    using p by (simp add: add.commute)
qed

theorem pack_roundtrip_witness:
  "\<exists>p. pack 5 SERVERDATA_EXECCOMMAND (str ''status'') = Inr p \<and> id_pkt p = Inr 5
       \<and> type_pkt p = Inr SERVERDATA_EXECCOMMAND \<and> payload p = str ''status''
       \<and> size_pkt p = Inr (10 + int (byteLength (str ''status'')))"
proof -
  have "int32_ok 5" by (simp add: int32_ok_def)
  moreover have "SERVERDATA_EXECCOMMAND \<in> set PacketType_values" by (simp add: PacketType_values_def)
  moreover have "well_formed (str ''status'')" by (simp add: str_def is_high_def is_low_def)
  moreover have "length (str ''status'') \<le> MAX_STRING_LENGTH"
    by (simp add: str_def MAX_STRING_LENGTH_def)
  ultimately show ?thesis by (rule pack_roundtrip)
qed

lemma header_readable:
  assumes "12 \<le> length (buffer p)"
  shows "\<exists>s i t. size_pkt p = Inr s \<and> id_pkt p = Inr i \<and> type_pkt p = Inr t"
  using assms by (simp add: size_pkt_def id_pkt_def type_pkt_def readInt32LE_def)

lemma type_pkt_UNKNOWN_no_reply:
  assumes "type_pkt r = Inr UNKNOWN" and "id_pkt r = Inr i" and "id_pkt q = Inr j"
  shows "inResponseTo r (Some q) = Inr False"
  using assms by (simp add: inResponseTo_def PacketType_defs)

text \<open>
  Claim C2.  For a reply \<open>r\<close> and a request \<open>q\<close> whose headers can be read (each
  buffer holds the twelve bytes of size, id and type), \<open>inResponseTo\<close> returns, and
  returns true exactly when the ids are equal and the types are one of the two
  pairings: AUTH_RESPONSE for AUTH, RESPONSE_VALUE for EXECCOMMAND or BOUNDARY.  In
  particular the result is false when the ids differ and when the reply's type reads
  as UNKNOWN.
\<close>

theorem inResponseTo_iff:
  assumes "id_pkt r = Inr ri" and "type_pkt r = Inr rt"
    and "id_pkt q = Inr qi" and "type_pkt q = Inr qt"
  shows "inResponseTo r (Some q) =
           Inr (ri = qi \<and>
                (rt = SERVERDATA_AUTH_RESPONSE \<and> qt = SERVERDATA_AUTH
                 \<or> rt = SERVERDATA_RESPONSE_VALUE
                    \<and> (qt = SERVERDATA_EXECCOMMAND \<or> qt = BOUNDARY)))
         \<and> (ri \<noteq> qi \<longrightarrow> inResponseTo r (Some q) = Inr False)
         \<and> (rt = UNKNOWN \<longrightarrow> inResponseTo r (Some q) = Inr False)"
  using assms by (auto simp add: inResponseTo_def PacketType_defs)

theorem inResponseTo_iff_witness:
  "inResponseTo (RconPacket [10, 0, 0, 0, 5, 0, 0, 0, 0, 0, 0, 0, 0, 0])
     (Some (RconPacket [10, 0, 0, 0, 5, 0, 0, 0, 2, 0, 0, 0, 0, 0])) = Inr True"
proof -
  let ?r = "RconPacket [10, 0, 0, 0, 5, 0, 0, 0, 0, 0, 0, 0, 0, 0]"
  let ?q = "RconPacket [10, 0, 0, 0, 5, 0, 0, 0, 2, 0, 0, 0, 0, 0]"
  have "id_pkt ?r = Inr 5" and "type_pkt ?r = Inr SERVERDATA_RESPONSE_VALUE"
    and "id_pkt ?q = Inr 5" and "type_pkt ?q = Inr SERVERDATA_EXECCOMMAND"
    by (simp_all add: id_pkt_def type_pkt_def readInt32LE_def int32LE_value_def PacketType_defs)
  from inResponseTo_iff [OF this] show ?thesis by simp
qed






section \<open>Evaluating scenarios\<close>

lemmas codec_defs = pack_def byteLength_def PACKET_FIXED_SIZE_def alloc_def writeInt32LE_def writeInt16LE_def
  int32_ok_def store_def int32LE_bytes_def buffer_write_def str_def utf8_of_cp_def is_high_def is_low_def
  size_pkt_def id_pkt_def type_pkt_def readInt32LE_def int32LE_value_def payload_def buffer_toString_def
  toString_def JSON_stringify_def json_text_def QuoteJSONString_def quote_unit_def Number_toString_def
  digits.simps cont_def second_ok_def utf16_of_cp_def Let_def utf8_decode.simps inResponseTo_def
  UNKNOWN_def SERVERDATA_AUTH_def SERVERDATA_AUTH_RESPONSE_def SERVERDATA_EXECCOMMAND_def
  SERVERDATA_RESPONSE_VALUE_def BOUNDARY_def PacketType_values_def

lemmas conn_defs = constructor_def truthy_def parseInt_String_def connect_def new_Socket_def live_socket_def
  handleConnect_def authenticate_def sendPacket_def nextPacketId_def queuePacket_def processQueue_def
  socket_write_def startResponseTimeout_def handleData_def handleData_try_def refreshResponseTimeout_def
  clearTimeout_def callback_def notify_def continue_def send_responses_def settle_send_def send_settled_def
  handleConnect_authenticated_def authenticate_response_def settle_connect_resume_def settle_connect_def
  connect_settled_def handleConnectionError_def connection_error_def disconnect_def cloneErrorProperties_def
  send_def responseTimeout_def TIMED_OUT_def logprefix_def RconClient_send_def spread_multipacket_def
  handleError_def AUTH_FAILED_def NOT_CONNECTED_def

lemmas scenario_defs = endpoint_def AUTH_OK_def RESPONSE_TO_AUTH_def MULTI_def

section \<open>Packet ids of a request and its boundary\<close>

lemma pack_Inr:
  assumes "pack i t pl = Inr p"
  shows "int32_ok i \<and> int32_ok t \<and> int32_ok (int (byteLength pl) + 10)
         \<and> p = RconPacket (int32LE_bytes (int (byteLength pl) + 10) @ int32LE_bytes i
                            @ int32LE_bytes t @ utf8_encode pl @ [0, 0])"
proof -
  have s: "int (byteLength pl + 14) - 4 = int (byteLength pl) + 10" by simp
  from assms have a: "int32_ok i" "int32_ok t" "int32_ok (int (byteLength pl) + 10)"
    by (auto simp add: pack_def Let_def PACKET_FIXED_SIZE_def writeInt32LE_def s add.commute
        split: if_splits sum.splits)
  then have "int (byteLength pl) + 10 \<le> 2 ^ 31 - 1" by (simp add: int32_ok_def)
  from pack_buffer [OF a(1,2) this] assms a show ?thesis by simp
qed

lemma pack_id:
  assumes "pack i t pl = Inr p"
  shows "id_pkt p = Inr i" and "int32_ok i"
proof -
  note p = pack_Inr [OF assms]
  then show "int32_ok i" by simp
  with p show "id_pkt p = Inr i"
    using readInt32LE_at [of i "int32LE_bytes (int (byteLength pl) + 10)" 4]
    by (simp add: id_pkt_def)
qed

lemma pack_type:
  assumes "pack i t pl = Inr p" and "t \<in> set PacketType_values"
  shows "type_pkt p = Inr t"
proof -
  note p = pack_Inr [OF assms(1)]
  then have "readInt32LE (buffer p) 8 = Inr t"
    using readInt32LE_at [of t "int32LE_bytes (int (byteLength pl) + 10) @ int32LE_bytes i" 8]
    by simp
  with assms(2) show ?thesis by (simp add: type_pkt_def)
qed

lemma nextPacketId_after:
  assumes "nextPacketId c = (i, c1)" and "int32_ok i" and "nextPacketId c1 = (j, c2)"
  shows "j = i + 1"
  using assms by (auto simp add: nextPacketId_def Let_def int32_ok_def split: if_splits)

lemma processQueue_packets:
  assumes "processQueue c = Inr c'"
  shows "map packet (queue c') = map packet (queue c)" and "map boundary (queue c') = map boundary (queue c)"
  using assms
  by (auto simp add: processQueue_def startResponseTimeout_def Let_def split: list.splits if_splits option.splits)

text \<open>
  Claim C4, as amended.  When \<open>sendPacket\<close> is asked for a multi-packet response and
  builds both packets, it queues one command whose BOUNDARY packet carries the id after
  the request's: the getter \<open>nextPacketId\<close> is read once for each packet.
\<close>

theorem boundary_id_is_next:
  assumes "sendPacket k t pl (Some opts) c = (None, c')" and "multipacket opts = Some True"
  shows "\<exists>p b i. map packet (queue c') = map packet (queue c) @ [p]
           \<and> map boundary (queue c') = map boundary (queue c) @ [Some b]
           \<and> id_pkt p = Inr i \<and> id_pkt b = Inr (i + 1)"
proof -
  obtain i c1 where n1: "nextPacketId c = (i, c1)" by (cases "nextPacketId c")
  obtain j c2 where n2: "nextPacketId c1 = (j, c2)" by (cases "nextPacketId c1")
  from assms n1 n2 obtain p where p: "pack i t pl = Inr p"
    by (auto simp add: sendPacket_def split: sum.splits)
  from assms n1 n2 p obtain b where b: "pack j BOUNDARY [] = Inr b"
    by (auto simp add: sendPacket_def split: sum.splits)
  have q1: "queue c1 = queue c" using n1 by (auto simp add: nextPacketId_def Let_def split: if_splits)
  have q2: "queue c2 = queue c1" using n2 by (auto simp add: nextPacketId_def Let_def split: if_splits)
  define cmd where "cmd = \<lparr>packet = p, boundary = Some b, data = [],
      cmd_timeout = (case so_timeout opts of None \<Rightarrow> timeout c2 | Some v \<Rightarrow> v), callbacks = k, sent = False\<rparr>"
  from assms n1 n2 p b have "processQueue (queuePacket cmd c2) = Inr c'"
    by (auto simp add: sendPacket_def cmd_def Let_def split: sum.splits)
  from processQueue_packets [OF this] have
    "map packet (queue c') = map packet (queue c) @ [p]"
    "map boundary (queue c') = map boundary (queue c) @ [Some b]"
    by (simp_all add: queuePacket_def q1 q2 cmd_def)
  moreover note pack_id [OF p] pack_id(1) [OF b]
  moreover have "j = i + 1" by (rule nextPacketId_after [OF n1 pack_id(2) [OF p] n2])
  ultimately show ?thesis by auto
qed

theorem boundary_id_is_next_witness:
  "\<exists>p b i. map packet (queue (snd (sendPacket (ForSend 0) SERVERDATA_EXECCOMMAND (str ''status'') MULTI established)))
             = map packet (queue established) @ [p]
         \<and> map boundary (queue (snd (sendPacket (ForSend 0) SERVERDATA_EXECCOMMAND (str ''status'') MULTI established)))
             = map boundary (queue established) @ [Some b]
         \<and> id_pkt p = Inr i \<and> id_pkt b = Inr (i + 1)"
proof -
  have "fst (sendPacket (ForSend 0) SERVERDATA_EXECCOMMAND (str ''status'') MULTI established) = None"
    by (simp add: established_def scenario_defs codec_defs conn_defs)
  then have "sendPacket (ForSend 0) SERVERDATA_EXECCOMMAND (str ''status'') MULTI established
             = (None, snd (sendPacket (ForSend 0) SERVERDATA_EXECCOMMAND (str ''status'') MULTI established))"
    by (simp add: prod_eq_iff)
  from boundary_id_is_next [OF this [unfolded MULTI_def]] show ?thesis
    by (simp add: MULTI_def)
qed

text \<open>
  Claim C4, as stated, fails: the first command sent with a multi-packet response
  requested on an authenticated connection has the request id 2 and the boundary id 3.
\<close>

theorem boundary_id_differs:
  "map_option (\<lambda>c. map (\<lambda>x. (id_pkt (packet x), map_option id_pkt (boundary x))) (queue c))
     (run [Connect, SocketConnect, SocketData AUTH_OK, Send (str ''status'') MULTI] (constructor endpoint))
   = Some [(Inr 2, Some (Inr 3))]"
  by (simp add: scenario_defs codec_defs conn_defs)

section \<open>Collecting a multi-packet response\<close>


lemma processQueue_sent:
  assumes "queue c = cmd # rest" and "sent cmd"
  shows "processQueue c = Inr c"
  using assms by (simp add: processQueue_def)

lemma refreshResponseTimeout_fields [simp]:
  "queue (refreshResponseTimeout c) = queue c"
  "notices (refreshResponseTimeout c) = notices c"
  "socket (refreshResponseTimeout c) = socket c"
  by (simp_all add: refreshResponseTimeout_def split: option.splits)

lemma clearTimeout_fields [simp]:
  "queue (clearTimeout c) = queue c"
  "notices (clearTimeout c) = notices c"
  "socket (clearTimeout c) = socket c"
  by (simp_all add: clearTimeout_def split: option.splits)

lemma handleData_collects:
  assumes "queue c = cmd # rest" and "sent cmd" and "boundary cmd = Some b"
    and "inResponseTo (RconPacket buf) (Some b) = Inr False"
    and "inResponseTo (RconPacket buf) (Some (packet cmd)) = Inr r"
  shows "queue (handleData buf c) = cmd\<lparr>data := data cmd @ (if r then [RconPacket buf] else [])\<rparr> # rest
         \<and> notices (handleData buf c) = notices c \<and> socket (handleData buf c) = socket c"
proof (cases r)
  case True
  let ?cmd = "cmd\<lparr>data := data cmd @ [RconPacket buf]\<rparr>"
  let ?c = "refreshResponseTimeout (c\<lparr>queue := ?cmd # rest\<rparr>)"
  have t: "handleData_try (RconPacket buf) cmd rest c = (?c, None)"
    using assms True by (simp add: handleData_try_def)
  have "processQueue ?c = Inr ?c"
    by (rule processQueue_sent [where cmd = ?cmd and rest = rest]) (simp_all add: assms)
  with t assms(1) True show ?thesis
    by (simp add: handleData_def)
next
  case False
  have t: "handleData_try (RconPacket buf) cmd rest c = (c, None)"
    using assms False by (simp add: handleData_try_def)
  have "processQueue c = Inr c"
    by (rule processQueue_sent [OF assms(1,2)])
  with t assms(1) False show ?thesis
    by (simp add: handleData_def)
qed

lemma fold_handleData_collects:
  assumes "queue c = cmd # rest" and "sent cmd" and "boundary cmd = Some b"
    and "\<forall>buf \<in> set bufs. inResponseTo (RconPacket buf) (Some b) = Inr False
           \<and> (\<exists>r. inResponseTo (RconPacket buf) (Some (packet cmd)) = Inr r)"
  shows "queue (fold handleData bufs c) = cmd\<lparr>data := data cmd @ replies_to (packet cmd) bufs\<rparr> # rest
         \<and> notices (fold handleData bufs c) = notices c \<and> socket (fold handleData bufs c) = socket c"
  using assms
proof (induction bufs arbitrary: c cmd)
  case Nil
  then show ?case by (simp add: replies_to_def)
next
  case (Cons buf bufs)
  from Cons.prems(4) obtain r where r: "inResponseTo (RconPacket buf) (Some (packet cmd)) = Inr r"
    and f: "inResponseTo (RconPacket buf) (Some b) = Inr False" by auto
  let ?cmd = "cmd\<lparr>data := data cmd @ (if r then [RconPacket buf] else [])\<rparr>"
  note h = handleData_collects [OF Cons.prems(1-3) f r]
  have "queue (fold handleData bufs (handleData buf c))
          = ?cmd\<lparr>data := data ?cmd @ replies_to (packet ?cmd) bufs\<rparr> # rest
        \<and> notices (fold handleData bufs (handleData buf c)) = notices (handleData buf c)
        \<and> socket (fold handleData bufs (handleData buf c)) = socket (handleData buf c)"
    by (rule Cons.IH) (use h Cons.prems in simp_all)
  with h r show ?case
    by (auto simp add: replies_to_def)
qed

lemma inResponseTo_True_id:
  assumes "inResponseTo r (Some q) = Inr True"
  shows "id_pkt r = id_pkt q"
  using assms by (auto simp add: inResponseTo_def split: sum.splits if_splits)

lemma inResponseTo_other_id:
  assumes "id_pkt r = Inr j" and "id_pkt q = Inr i" and "i \<noteq> j"
  shows "inResponseTo r (Some q) = Inr False"
  using assms by (simp add: inResponseTo_def)

lemma handleData_boundary_reply:
  assumes "queue c = cmd # rest" and "boundary cmd = Some b" and "callbacks cmd = ForSend n"
    and "inResponseTo (RconPacket buf) (Some b) = Inr True"
    and "inResponseTo (RconPacket buf) (Some (packet cmd)) = Inr False"
    and "socket c \<noteq> None" and "\<not> send_settled n c"
  shows "notices (handleData buf c) =
           notices c @ [Settled (ForSend n) (Inr (data cmd)),
                        SendResult n (Inr (foldl (\<lambda>response pkt. response @ payload pkt) [] (data cmd)))]
         \<and> map callbacks (queue (handleData buf c)) = map callbacks rest"
proof -
  let ?c1 = "callback (ForSend n) (Inr (data cmd)) (c\<lparr>queue := rest\<rparr>)"
  have t: "handleData_try (RconPacket buf) cmd rest c = (?c1, Some (Inr (data cmd)))"
    using assms by (simp add: handleData_try_def)
  obtain c3 where p: "processQueue (clearTimeout ?c1) = Inr c3"
    and n: "notices c3 = notices ?c1" and q: "map callbacks (queue c3) = map callbacks rest"
    using assms(6)
    by (cases "processQueue (clearTimeout ?c1)")
      (auto simp add: processQueue_def callback_def notify_def startResponseTimeout_def Let_def
        split: list.splits if_splits option.splits)
  have s: "\<not> send_settled n c3"
    using assms(7) n by (simp add: send_settled_def callback_def notify_def)
  have "handleData buf c = continue (ForSend n) (Inr (data cmd)) c3"
    using assms(1,3) t p by (simp add: handleData_def)
  with s n q show ?thesis
    by (simp add: continue_def settle_send_def send_responses_def notify_def callback_def)
qed


lemma processQueue_queue:
  assumes "processQueue c = Inr c'"
  shows "queue c' = queue c \<or> (\<exists>cmd rest. queue c = cmd # rest \<and> \<not> sent cmd \<and> queue c' = cmd\<lparr>sent := True\<rparr> # rest)"
  using assms
  by (auto simp add: processQueue_def startResponseTimeout_def Let_def
      split: list.splits if_splits option.splits)

lemma nextPacketId_fields:
  assumes "nextPacketId c = (i, c1)"
  shows "queue c1 = queue c" and "timeout c1 = timeout c" and "socket c1 = socket c"
    and "notices c1 = notices c" and "connected c1 = connected c"
    and "waiters c1 = waiters c" and "calls c1 = calls c"
  using assms by (auto simp add: nextPacketId_def Let_def split: if_splits)

lemma sendPacket_multipacket:
  assumes "sendPacket k t pl (Some opts) c = (None, c0)" and "multipacket opts = Some True"
  obtains p b i where "pack i t pl = Inr p" and "pack (i + 1) BOUNDARY [] = Inr b"
    and "queue c0 \<noteq> []" and "packet (last (queue c0)) = p" and "boundary (last (queue c0)) = Some b"
    and "data (last (queue c0)) = []" and "callbacks (last (queue c0)) = k"
proof -
  obtain i c1 where n1: "nextPacketId c = (i, c1)" by (cases "nextPacketId c")
  obtain j c2 where n2: "nextPacketId c1 = (j, c2)" by (cases "nextPacketId c1")
  from assms n1 n2 obtain p where p: "pack i t pl = Inr p"
    by (auto simp add: sendPacket_def split: sum.splits)
  from assms n1 n2 p obtain b where b: "pack j BOUNDARY [] = Inr b"
    by (auto simp add: sendPacket_def split: sum.splits)
  have j: "j = i + 1" by (rule nextPacketId_after [OF n1 pack_id(2) [OF p] n2])
  define cmd where "cmd = \<lparr>packet = p, boundary = Some b, data = [],
      cmd_timeout = (case so_timeout opts of None \<Rightarrow> timeout c2 | Some v \<Rightarrow> v), callbacks = k, sent = False\<rparr>"
  from assms n1 n2 p b have pq: "processQueue (queuePacket cmd c2) = Inr c0"
    by (auto simp add: sendPacket_def cmd_def Let_def split: sum.splits)
  have q: "queue (queuePacket cmd c2) = queue c2 @ [cmd]"
    by (simp add: queuePacket_def cmd_def)
  from processQueue_queue [OF pq] have
    "queue c0 \<noteq> [] \<and> packet (last (queue c0)) = p \<and> boundary (last (queue c0)) = Some b
     \<and> data (last (queue c0)) = [] \<and> callbacks (last (queue c0)) = k"
  proof
    assume "queue c0 = queue (queuePacket cmd c2)"
    then have "queue c0 = queue c2 @ [cmd]" by (simp only: q)
    then show ?thesis by (simp add: cmd_def)
  next
    assume "\<exists>x rest. queue (queuePacket cmd c2) = x # rest \<and> \<not> sent x \<and> queue c0 = x\<lparr>sent := True\<rparr> # rest"
    then obtain x rest where x: "queue c2 @ [cmd] = x # rest" and c0: "queue c0 = x\<lparr>sent := True\<rparr> # rest"
      unfolding q by blast
    show ?thesis
    proof (cases rest rule: rev_cases)
      case Nil
      with x have "x = cmd" by (simp add: append_eq_Cons_conv)
      with Nil c0 show ?thesis by (simp add: cmd_def)
    next
      case (snoc ys y)
      with x have "y = cmd" by (auto simp add: append_eq_Cons_conv)
      with snoc c0 show ?thesis by (simp add: cmd_def)
    qed
  qed
  with that [OF p b [unfolded j]] show thesis by blast
qed

lemma foldl_payloads: "foldl (\<lambda>response pkt. response @ payload pkt) acc ps = acc @ concat (map payload ps)"
  by (induction ps arbitrary: acc) simp_all

lemma handleData_try_boundary_only:
  assumes "snd (handleData_try (RconPacket buf) cmd rest c) = Some (Inr d)" and "boundary cmd = Some b"
  shows "inResponseTo (RconPacket buf) (Some b) = Inr True"
  using assms
  by (auto simp add: handleData_try_def Let_def split: sum.splits if_splits bool.splits)

text \<open>
  Claim C3.  Take a command that \<open>sendPacket\<close> queued with a multi-packet response
  requested, at the head of the queue and dispatched, and let \<open>b\<close> be its boundary
  packet.  While the buffers that arrive are not responses to \<open>b\<close>, the command stays
  at the head, nothing is reported, and it collects the responses to its request
  packet in the order of arrival.  The buffer that is a response to \<open>b\<close> completes the
  command: its callback gets exactly the packets collected before, that buffer not
  among them, and \<open>send\<close> resolves with their payloads concatenated.  Whatever the
  buffer and the state, the command is completed with success only by a response to
  \<open>b\<close>.
\<close>

theorem multipacket_completion:
  assumes "sendPacket (ForSend n) SERVERDATA_EXECCOMMAND pl (Some opts) c = (None, c0)"
    and "multipacket opts = Some True"
    and "cmd = (last (queue c0))\<lparr>sent := True\<rparr>" and "boundary cmd = Some b"
    and "queue c1 = cmd # rest" and "socket c1 \<noteq> None" and "\<not> send_settled n c1"
    and "\<forall>buf \<in> set bufs. inResponseTo (RconPacket buf) (Some b) = Inr False
           \<and> (\<exists>r. inResponseTo (RconPacket buf) (Some (packet cmd)) = Inr r)"
    and "inResponseTo (RconPacket fin) (Some b) = Inr True"
  shows "notices (fold handleData bufs c1) = notices c1
         \<and> queue (fold handleData bufs c1) = cmd\<lparr>data := replies_to (packet cmd) bufs\<rparr> # rest
         \<and> notices (handleData fin (fold handleData bufs c1)) =
             notices c1 @ [Settled (ForSend n) (Inr (replies_to (packet cmd) bufs)),
                           SendResult n (Inr (concat (map payload (replies_to (packet cmd) bufs))))]
         \<and> (\<forall>buf c' d. snd (handleData_try (RconPacket buf) cmd rest c') = Some (Inr d)
               \<longrightarrow> inResponseTo (RconPacket buf) (Some b) = Inr True)"
proof -
  obtain p b' i where p: "pack i SERVERDATA_EXECCOMMAND pl = Inr p" and b': "pack (i + 1) BOUNDARY [] = Inr b'"
    and l: "packet (last (queue c0)) = p" "boundary (last (queue c0)) = Some b'"
      "data (last (queue c0)) = []" "callbacks (last (queue c0)) = ForSend n"
    by (rule sendPacket_multipacket [OF assms(1,2)])
  from l assms(3,4) have cmd: "packet cmd = p" "b' = b" "data cmd = []" "callbacks cmd = ForSend n" "sent cmd"
    by simp_all
  let ?D = "replies_to (packet cmd) bufs"
  let ?c2 = "fold handleData bufs c1"
  from fold_handleData_collects [OF assms(5) cmd(5) assms(4,8)]
  have c2: "queue ?c2 = cmd\<lparr>data := ?D\<rparr> # rest" "notices ?c2 = notices c1" "socket ?c2 = socket c1"
    by (simp_all add: cmd)
  have "id_pkt (RconPacket fin) = id_pkt b"
    by (rule inResponseTo_True_id [OF assms(9)])
  then have "id_pkt (RconPacket fin) = Inr (i + 1)"
    using pack_id(1) [OF b'] cmd(2) by simp
  then have f: "inResponseTo (RconPacket fin) (Some (packet (cmd\<lparr>data := ?D\<rparr>))) = Inr False"
    using pack_id(1) [OF p] cmd(1) by (intro inResponseTo_other_id [where i = i and j = "i + 1"]) simp_all
  have s: "\<not> send_settled n ?c2"
    using assms(7) c2(2) by (simp add: send_settled_def)
  have "notices (handleData fin ?c2) =
          notices ?c2 @ [Settled (ForSend n) (Inr (data (cmd\<lparr>data := ?D\<rparr>))),
                         SendResult n (Inr (foldl (\<lambda>response pkt. response @ payload pkt) []
                                              (data (cmd\<lparr>data := ?D\<rparr>))))]"
    using handleData_boundary_reply [OF c2(1) _ _ _ f _ s, of b] assms(4,6,9) cmd(4) c2(3)
    by simp
  then have "notices (handleData fin ?c2) =
          notices c1 @ [Settled (ForSend n) (Inr ?D), SendResult n (Inr (concat (map payload ?D)))]"
    by (simp add: c2(2) foldl_payloads)
  with c2 handleData_try_boundary_only [OF _ assms(4)] show ?thesis
    by blast
qed

theorem multipacket_completion_witness:
  "notices
     (handleData [12, 0, 0, 0, 3, 0, 0, 0, 0, 0, 0, 0, 122, 122, 0, 0]
        (fold handleData
           [[12, 0, 0, 0, 2, 0, 0, 0, 0, 0, 0, 0, 97, 98, 0, 0],
            [12, 0, 0, 0, 2, 0, 0, 0, 0, 0, 0, 0, 99, 100, 0, 0]]
           (snd (sendPacket (ForSend 0) SERVERDATA_EXECCOMMAND (str ''status'') MULTI established))))
   = notices established
     @ [Settled (ForSend 0)
          (Inr [RconPacket [12, 0, 0, 0, 2, 0, 0, 0, 0, 0, 0, 0, 97, 98, 0, 0],
                RconPacket [12, 0, 0, 0, 2, 0, 0, 0, 0, 0, 0, 0, 99, 100, 0, 0]]),
        SendResult 0 (Inr (str ''abcd''))]"
proof -
  let ?c0 = "snd (sendPacket (ForSend 0) SERVERDATA_EXECCOMMAND (str ''status'') MULTI established)"
  let ?q = "RconPacket [16, 0, 0, 0, 2, 0, 0, 0, 2, 0, 0, 0, 115, 116, 97, 116, 117, 115, 0, 0]"
  let ?b = "RconPacket [10, 0, 0, 0, 3, 0, 0, 0, 255, 0, 0, 0, 0, 0]"
  let ?cmd = "\<lparr>packet = ?q, boundary = Some ?b, data = [], cmd_timeout = 5000,
               callbacks = ForSend 0, sent = True\<rparr>"
  let ?bufs = "[[12, 0, 0, 0, 2, 0, 0, 0, 0, 0, 0, 0, 97, 98, 0, 0],
                [12, 0, 0, 0, 2, 0, 0, 0, 0, 0, 0, 0, 99, 100, 0, 0 :: byte]]"
  have q: "queue ?c0 = [?cmd]"
    by (simp add: established_def scenario_defs codec_defs conn_defs)
  have "fst (sendPacket (ForSend 0) SERVERDATA_EXECCOMMAND (str ''status'') MULTI established) = None"
    by (simp add: established_def scenario_defs codec_defs conn_defs)
  then have 1: "sendPacket (ForSend 0) SERVERDATA_EXECCOMMAND (str ''status'')
                  (Some \<lparr>so_timeout = None, multipacket = Some True\<rparr>) established = (None, ?c0)"
    by (simp add: prod_eq_iff MULTI_def)
  have 2: "multipacket \<lparr>so_timeout = None, multipacket = Some True\<rparr> = Some True" by simp
  have 3: "?cmd = (last (queue ?c0))\<lparr>sent := True\<rparr>" by (simp add: q)
  have 4: "boundary ?cmd = Some ?b" by simp
  have 5: "queue ?c0 = ?cmd # []" by (simp add: q)
  have 6: "socket ?c0 \<noteq> None"
    by (simp add: established_def scenario_defs codec_defs conn_defs)
  have n: "notices ?c0 = notices established"
    by (simp add: established_def scenario_defs codec_defs conn_defs)
  have 7: "\<not> send_settled 0 ?c0"
    by (simp add: n send_settled_def) (simp add: established_def scenario_defs codec_defs conn_defs)
  have 8: "\<forall>buf \<in> set ?bufs. inResponseTo (RconPacket buf) (Some ?b) = Inr False
             \<and> (\<exists>r. inResponseTo (RconPacket buf) (Some (packet ?cmd)) = Inr r)"
    by (auto simp add: codec_defs)
  have 9: "inResponseTo (RconPacket [12, 0, 0, 0, 3, 0, 0, 0, 0, 0, 0, 0, 122, 122, 0, 0]) (Some ?b) = Inr True"
    by (simp add: codec_defs)
  have r: "replies_to (packet ?cmd) ?bufs
             = [RconPacket [12, 0, 0, 0, 2, 0, 0, 0, 0, 0, 0, 0, 97, 98, 0, 0],
                RconPacket [12, 0, 0, 0, 2, 0, 0, 0, 0, 0, 0, 0, 99, 100, 0, 0]]"
    by (simp add: replies_to_def codec_defs)
  have p: "concat (map payload (replies_to (packet ?cmd) ?bufs)) = str ''abcd''"
    unfolding r by (simp add: codec_defs)
  from multipacket_completion [OF 1 2 3 4 5 6 7 8 9] show ?thesis
    unfolding r [symmetric] p [symmetric] n [symmetric] by blast
qed

section \<open>Timeouts\<close>

text \<open>
  Claim C6 fails on the code.  A connection made with the timeout option 0 gets the
  default of 5000 ms.  A command sent with the timeout option 0 gets a timer with the
  delay 0 like any other, and when that timer fires the command is rejected with the
  timeout error.
\<close>

theorem timeout_zero_is_not_disabled:
  "timeout (constructor (endpoint\<lparr>opt_timeout := Some 0\<rparr>)) = 5000
   \<and> map_option (\<lambda>c. (timers c, notices c))
        (run [Connect, SocketConnect, SocketData AUTH_OK,
              Send (str ''status'') (Some \<lparr>so_timeout = Some 0, multipacket = None\<rparr>)]
           (constructor endpoint))
      = Some ([\<lparr>delay = 5000, armed = False\<rparr>, \<lparr>delay = 0, armed = True\<rparr>],
              [Settled (ForAuth 0) (Inr [RconPacket AUTH_OK]), ConnectResult 0 (Inr ())])
   \<and> map_option (\<lambda>c. (map callbacks (queue c), drop 2 (notices c)))
        (run [Connect, SocketConnect, SocketData AUTH_OK,
              Send (str ''status'') (Some \<lparr>so_timeout = Some 0, multipacket = None\<rparr>),
              TimerFire 1]
           (constructor endpoint))
      = Some ([],
              [Settled (ForSend 0)
                 (Inl (TIMED_OUT (constructor endpoint)
                         (str ''RconPacket{\"size\":16,\"id\":2,\"type\":2,\"payload\":\"status\"}''))),
               SendResult 0
                 (Inl (TIMED_OUT (constructor endpoint)
                         (str ''RconPacket{\"size\":16,\"id\":2,\"type\":2,\"payload\":\"status\"}'')))])"
  by (simp add: scenario_defs codec_defs conn_defs)

text \<open>
  Claim C7 fails on the code in its last part.  With two commands queued and the
  first one dispatched, the timer's callback takes the first command from the queue
  and rejects it with the timeout error that names the endpoint and the packet, and
  that is all: the second command is still unsent, the socket has been written to
  twice only (the AUTH packet and the first command), and no timer is armed.
\<close>

theorem timeout_leaves_next_command_unsent:
  "map_option (\<lambda>c. (map (\<lambda>x. (callbacks x, sent x)) (queue c), map_option (\<lambda>s. length (written s)) (socket c),
                     map armed (timers c), drop 2 (notices c)))
     (run [Connect, SocketConnect, SocketData AUTH_OK, Send (str ''status'') None, Send (str ''stats'') None,
           TimerFire 1]
        (constructor endpoint))
   = Some ([(ForSend 1, False)], Some 2, [False, False],
           [Settled (ForSend 0)
              (Inl (TIMED_OUT (constructor endpoint)
                      (str ''RconPacket{\"size\":16,\"id\":2,\"type\":2,\"payload\":\"status\"}''))),
            SendResult 0
              (Inl (TIMED_OUT (constructor endpoint)
                      (str ''RconPacket{\"size\":16,\"id\":2,\"type\":2,\"payload\":\"status\"}'')))])"
  by (simp add: scenario_defs codec_defs conn_defs)

section \<open>Authentication\<close>


section \<open>The queue discipline: how the handlers change the queue\<close>


lemma completions_append [simp]: "completions (ms @ ns) = completions ms @ completions ns"
  by (induction ms rule: completions.induct) simp_all

lemma evolves_tail_unsent: "evolves G c c' \<Longrightarrow> tail_unsent c \<Longrightarrow> tail_unsent c'"
proof (induction rule: evolves.induct)
  case (push c' c x)
  then show ?case by (cases "queue c") (auto simp add: tail_unsent_def)
next
  case (pop c x rest c')
  then show ?case by (cases rest) (auto simp add: tail_unsent_def)
qed (auto simp add: tail_unsent_def)

lemma evolves_history: "evolves G c c' \<Longrightarrow> prefix (history c) (history c')"
proof (induction rule: evolves.induct)
  case (trans c c' c'')
  then show ?case using prefix_order.trans by blast
qed (auto simp add: history_def)

lemma evolves_cmds_ok: "evolves G c c' \<Longrightarrow> cmds_ok G c \<Longrightarrow> cmds_ok G c'"
  by (induction rule: evolves.induct) (auto simp add: cmds_ok_def)

lemma evolves_mono: "evolves G c c' \<Longrightarrow> (\<And>p b k. G p b k \<Longrightarrow> H p b k) \<Longrightarrow> evolves H c c'"
proof (induction rule: evolves.induct)
  case (trans c c' c'')
  then show ?case by (blast intro: evolves.trans)
qed (auto intro: evolves.intros)

lemma evolves_notify: "completions [n] = [] \<Longrightarrow> evolves G c (notify n c)"
  by (rule evolves.same) (simp_all add: notify_def)

lemma evolves_settle_send: "evolves G c (settle_send n r c)"
  by (simp add: settle_send_def evolves_notify evolves.same)

lemma evolves_settle_connect: "evolves G c (settle_connect n r c)"
  by (simp add: settle_connect_def evolves_notify evolves.same)

lemma evolves_disconnect: "evolves G c (disconnect c)"
  by (rule evolves.same) (simp_all add: disconnect_def)

lemma evolves_clearTimeout: "evolves G c (clearTimeout c)"
  by (rule evolves.same) (simp_all add: clearTimeout_def split: option.splits)

lemma evolves_refresh: "evolves G c (refreshResponseTimeout c)"
  by (rule evolves.same) (simp_all add: refreshResponseTimeout_def split: option.splits)

lemma evolves_nextPacketId: "evolves G c (snd (nextPacketId c))"
  by (rule evolves.same) (simp_all add: nextPacketId_def Let_def)

lemma evolves_processQueue:
  assumes "processQueue c = Inr c'"
  shows "evolves G c c'"
proof (cases "queue c")
  case Nil
  with assms show ?thesis by (auto simp add: processQueue_def intro: evolves.same)
next
  case (Cons x rest)
  show ?thesis
  proof (cases "sent x")
    case True
    with Cons assms show ?thesis by (auto simp add: processQueue_def intro: evolves.same)
  next
    case False
    with Cons assms have "queue c' = x\<lparr>sent := True\<rparr> # rest" "notices c' = notices c"
      by (auto simp add: processQueue_def startResponseTimeout_def Let_def split: option.splits)
    with Cons show ?thesis by (auto intro: evolves.head)
  qed
qed

lemma evolves_sendPacket:
  assumes "pushes G k t pl options"
  shows "evolves G c (snd (sendPacket k t pl options c))"
proof -
  obtain i c1 where n1: "nextPacketId c = (i, c1)" by (cases "nextPacketId c")
  obtain j c2 where n2: "nextPacketId c1 = (j, c2)" by (cases "nextPacketId c1")
  have e1: "evolves G c c1" using evolves_nextPacketId [of G c] n1 by simp
  have e2: "evolves G c1 c2" using evolves_nextPacketId [of G c1] n2 by simp
  show ?thesis
  proof (cases "pack i t pl")
    case (Inl e)
    with n1 e1 show ?thesis by (simp add: sendPacket_def)
  next
    case (Inr p)
    show ?thesis
    proof (cases "case options of None \<Rightarrow> False | Some opts \<Rightarrow> multipacket opts = Some True")
      case True
      show ?thesis
      proof (cases "pack j BOUNDARY []")
        case (Inl e)
        with n1 n2 Inr True e1 e2 show ?thesis
          by (auto simp add: sendPacket_def intro: evolves.trans)
      next
        case b: (Inr bp)
        define x where "x = \<lparr>packet = p, boundary = Some bp, data = [],
          cmd_timeout = (case options of None \<Rightarrow> timeout c2
                         | Some opts \<Rightarrow> (case so_timeout opts of None \<Rightarrow> timeout c2 | Some v \<Rightarrow> v)),
          callbacks = k, sent = False\<rparr>"
        have "G p (Some bp) k" using assms Inr b True by (auto simp add: pushes_def)
        then have e3: "evolves G c2 (queuePacket x c2)"
          by (intro evolves.push [where x = "x\<lparr>data := [], sent := False\<rparr>"]) (simp_all add: queuePacket_def x_def)
        have e: "evolves G c (queuePacket x c2)"
          using e1 e2 e3 by (blast intro: evolves.trans)
        show ?thesis
        proof (cases "processQueue (queuePacket x c2)")
          case (Inl err)
          with n1 n2 Inr True b e show ?thesis
            by (simp add: sendPacket_def x_def Let_def)
        next
          case c4: (Inr c4)
          with n1 n2 Inr True b evolves.trans [OF e evolves_processQueue [OF c4]] show ?thesis
            by (simp add: sendPacket_def x_def Let_def)
        qed
      qed
    next
      case False
      define x where "x = \<lparr>packet = p, boundary = None, data = [],
        cmd_timeout = (case options of None \<Rightarrow> timeout c1
                       | Some opts \<Rightarrow> (case so_timeout opts of None \<Rightarrow> timeout c1 | Some v \<Rightarrow> v)),
        callbacks = k, sent = False\<rparr>"
      have "G p None k" using assms Inr False by (auto simp add: pushes_def)
      then have e3: "evolves G c1 (queuePacket x c1)"
        by (intro evolves.push [where x = "x\<lparr>data := [], sent := False\<rparr>"]) (simp_all add: queuePacket_def x_def)
      have e: "evolves G c (queuePacket x c1)"
        using e1 e3 by (blast intro: evolves.trans)
      show ?thesis
      proof (cases "processQueue (queuePacket x c1)")
        case (Inl err)
        with n1 Inr False e show ?thesis
          by (simp add: sendPacket_def x_def Let_def)
      next
        case c4: (Inr c4)
        with n1 Inr False evolves.trans [OF e evolves_processQueue [OF c4]] show ?thesis
          by (simp add: sendPacket_def x_def Let_def)
      qed
    qed
  qed
qed


lemma evolves_send:
  assumes "pushes G (ForSend n) SERVERDATA_EXECCOMMAND cmd options"
  shows "evolves G c (send n cmd options c)"
proof (cases "connected c")
  case False
  then show ?thesis by (simp add: send_def evolves_settle_send)
next
  case True
  obtain r c1 where s: "sendPacket (ForSend n) SERVERDATA_EXECCOMMAND cmd options c = (r, c1)"
    by (cases "sendPacket (ForSend n) SERVERDATA_EXECCOMMAND cmd options c")
  with evolves_sendPacket [OF assms, of c] have e: "evolves G c c1" by simp
  show ?thesis
  proof (cases r)
    case None
    with True s e show ?thesis by (simp add: send_def)
  next
    case (Some err)
    with True s evolves.trans [OF e evolves_settle_send] show ?thesis by (simp add: send_def)
  qed
qed

lemma evolves_resume:
  assumes "client_ok G"
  shows "evolves G c (resume r ws c)"
proof (induction ws arbitrary: c)
  case Nil
  then show ?case by (simp add: evolves.same)
next
  case (Cons w ws)
  obtain m cmd options where w: "w = (m, cmd, options)" by (cases w)
  have "evolves G c (case r of Inl e \<Rightarrow> settle_send m (Inl e) c
                      | Inr _ \<Rightarrow> send m cmd (Some (spread_multipacket options)) c)"
    using assms by (cases r) (simp_all add: evolves_settle_send evolves_send client_ok_def)
  from evolves.trans [OF this Cons.IH] show ?case by (simp add: w)
qed

lemma evolves_settle_connect_resume:
  assumes "client_ok G"
  shows "evolves G c (settle_connect_resume n r c)"
proof -
  let ?c1 = "settle_connect n r c"
  let ?c2 = "?c1\<lparr>waiters := filter (\<lambda>w. fst w \<noteq> n) (waiters ?c1)\<rparr>"
  have "evolves G ?c1 ?c2" by (rule evolves.same) simp_all
  from evolves.trans [OF evolves.trans [OF evolves_settle_connect this] evolves_resume [OF assms]]
  show ?thesis by (simp add: settle_connect_resume_def Let_def)
qed

lemma evolves_handleConnectionError:
  assumes "client_ok G"
  shows "evolves G c (handleConnectionError n err c)"
  unfolding handleConnectionError_def
  by (rule evolves.trans [OF evolves_disconnect evolves_settle_connect_resume [OF assms]])

lemma evolves_handleConnect_authenticated:
  assumes "client_ok G"
  shows "evolves G c (handleConnect_authenticated n r c)"
proof -
  have "evolves G c (c\<lparr>connected := True, connectPromise := None\<rparr>)" by (rule evolves.same) simp_all
  from evolves.trans [OF this evolves_settle_connect_resume [OF assms]]
  show ?thesis
    by (cases r) (simp_all add: handleConnect_authenticated_def evolves.same
        evolves_handleConnectionError [OF assms])
qed

lemma evolves_continue:
  assumes "client_ok G"
  shows "evolves G c (continue k r c)"
  by (cases k) (simp_all add: continue_def evolves_settle_send evolves_handleConnect_authenticated [OF assms])

lemma evolves_authenticate:
  assumes "client_ok G" and "auth_ok G"
  shows "evolves G c (authenticate n c)"
proof -
  obtain r c1 where s: "sendPacket (ForAuth n) SERVERDATA_AUTH (password c) None c = (r, c1)"
    by (cases "sendPacket (ForAuth n) SERVERDATA_AUTH (password c) None c")
  have "pushes G (ForAuth n) SERVERDATA_AUTH (password c) None"
    using assms(2) by (simp add: auth_ok_def)
  from evolves_sendPacket [OF this, of c] s have e: "evolves G c c1" by simp
  show ?thesis
  proof (cases r)
    case None
    with s e show ?thesis by (simp add: authenticate_def)
  next
    case (Some err)
    with s evolves.trans [OF e evolves_continue [OF assms(1)]] show ?thesis
      by (simp add: authenticate_def)
  qed
qed

lemma evolves_handleConnect:
  assumes "client_ok G" and "auth_ok G"
  shows "evolves G c (handleConnect n c)"
proof (cases "socket c")
  case None
  then show ?thesis by (simp add: handleConnect_def evolves_notify)
next
  case (Some s)
  have "evolves G c (c\<lparr>socket := Some (s\<lparr>phase := Open\<rparr>)\<rparr>)" by (rule evolves.same) simp_all
  from evolves.trans [OF this evolves_authenticate [OF assms]] Some show ?thesis
    by (simp add: handleConnect_def)
qed

lemma evolves_connect: "evolves G c (snd (connect c))"
  by (rule evolves.same) (auto simp add: connect_def Let_def split: option.splits)

lemma evolves_RconClient_send:
  assumes "client_ok G"
  shows "evolves G c (RconClient_send n cmd options c)"
proof -
  obtain r c1 where s: "connect c = (r, c1)" by (cases "connect c")
  with evolves_connect [of G c] have e: "evolves G c c1" by simp
  show ?thesis
  proof (cases r)
    case Returned
    have "evolves G c1 (send n cmd (Some (spread_multipacket options)) c1)"
      using assms by (simp add: evolves_send client_ok_def)
    with Returned s e show ?thesis
      by (auto simp add: RconClient_send_def intro: evolves.trans)
  next
    case (Pending p)
    have "evolves G c1 (c1\<lparr>waiters := waiters c1 @ [(p, n, cmd, options)]\<rparr>)"
      by (rule evolves.same) simp_all
    with Pending s e show ?thesis
      by (auto simp add: RconClient_send_def intro: evolves.trans)
  qed
qed

lemma evolves_pop_callback:
  assumes "queue c = x # rest"
  shows "evolves G c (callback (callbacks x) r (c\<lparr>queue := rest\<rparr>))"
  by (rule evolves.pop [OF assms]) (simp_all add: callback_def notify_def)

lemma evolves_handleData_try:
  assumes "queue c = x # rest"
  shows "evolves G c (fst (handleData_try response x rest c))"
proof -
  let ?x1 = "x\<lparr>data := data x @ [response]\<rparr>"
  let ?c1 = "refreshResponseTimeout (c\<lparr>queue := ?x1 # rest\<rparr>)"
  have h: "evolves G c ?c1"
    by (rule evolves.head [OF assms, where x' = ?x1]) (simp_all add: refreshResponseTimeout_def split: option.splits)
  have q1: "queue ?c1 = ?x1 # rest" by (simp add: refreshResponseTimeout_def split: option.splits)
  have p1: "evolves G c (callback (callbacks ?x1) r (?c1\<lparr>queue := rest\<rparr>))" for r
    by (rule evolves.trans [OF h evolves_pop_callback [OF q1]])
  note p0 = evolves_pop_callback [OF assms, of G]
  show ?thesis
    using p0 p1 h
    by (auto simp add: handleData_try_def Let_def evolves.same split: sum.splits option.splits bool.splits)
qed

lemma evolves_handleData:
  assumes "client_ok G"
  shows "evolves G c (handleData buf c)"
proof (cases "queue c")
  case Nil
  then show ?thesis by (simp add: handleData_def evolves.same)
next
  case (Cons x rest)
  obtain c1 outcome where t: "handleData_try (RconPacket buf) x rest c = (c1, outcome)"
    by (cases "handleData_try (RconPacket buf) x rest c")
  with evolves_handleData_try [OF Cons, of G "RconPacket buf"] have e1: "evolves G c c1" by simp
  define c2 where "c2 = (if outcome \<noteq> None then clearTimeout c1 else c1)"
  have e2: "evolves G c1 c2" by (simp add: c2_def evolves_clearTimeout evolves.same)
  define c3 where "c3 = (case processQueue c2 of Inl e \<Rightarrow> notify (Uncaught e) c2 | Inr c' \<Rightarrow> c')"
  have e3: "evolves G c2 c3"
    by (cases "processQueue c2") (simp_all add: c3_def evolves_notify evolves_processQueue)
  have e: "evolves G c c3" using e1 e2 e3 by (blast intro: evolves.trans)
  have "handleData buf c = (case outcome of None \<Rightarrow> c3 | Some r \<Rightarrow> continue (callbacks x) r c3)"
    unfolding c2_def c3_def using Cons t by (simp add: handleData_def Let_def)
  with e evolves.trans [OF e evolves_continue [OF assms]] show ?thesis
    by (cases outcome) simp_all
qed

lemma evolves_handleError:
  assumes "client_ok G"
  shows "evolves G c (handleError err c)"
proof (cases "queue c")
  case Nil
  then show ?thesis by (simp add: handleError_def evolves.same)
next
  case (Cons x rest)
  from evolves.trans [OF evolves_pop_callback [OF Cons] evolves_continue [OF assms]] Cons
  show ?thesis by (simp add: handleError_def Let_def)
qed

lemma toString_readable:
  assumes "12 \<le> length (buffer p)"
  shows "\<exists>d. toString p = Inr d"
  using assms by (simp add: toString_def size_pkt_def id_pkt_def type_pkt_def readInt32LE_def)

lemma evolves_responseTimeout:
  assumes "client_ok G" and "cmds_ok readable c"
  shows "evolves G c (responseTimeout c)"
proof (cases "queue c")
  case Nil
  then show ?thesis by (simp add: responseTimeout_def evolves.same)
next
  case (Cons x rest)
  with assms(2) obtain d where "toString (packet x) = Inr d"
    using toString_readable [of "packet x"] by (auto simp add: cmds_ok_def readable_def)
  with evolves.trans [OF evolves_pop_callback [OF Cons] evolves_continue [OF assms(1)]] Cons
  show ?thesis by (simp add: responseTimeout_def Let_def)
qed

lemma evolves_step:
  assumes "client_ok G" and "auth_ok G" and "cmds_ok readable c" and "step ev c = Some c'"
    and "\<And>cmd options. ev = Send cmd options \<Longrightarrow> pushes G (ForSend (calls c)) SERVERDATA_EXECCOMMAND cmd options"
  shows "evolves G c c'"
proof (cases ev)
  case Connect
  with assms(4) show ?thesis by (auto simp add: evolves_connect)
next
  case Disconnect
  with assms(4) show ?thesis by (auto simp add: evolves_disconnect)
next
  case (Send cmd options)
  have "evolves G c (c\<lparr>calls := calls c + 1\<rparr>)" by (rule evolves.same) simp_all
  from evolves.trans [OF this evolves_send [OF assms(5) [OF Send]]] Send assms(4)
  show ?thesis by auto
next
  case (ClientSend cmd options)
  have "evolves G c (c\<lparr>calls := calls c + 1\<rparr>)" by (rule evolves.same) simp_all
  from evolves.trans [OF this evolves_RconClient_send [OF assms(1)]] ClientSend assms(4)
  show ?thesis by auto
next
  case SocketConnect
  with assms(4) show ?thesis
    by (auto simp add: evolves_handleConnect [OF assms(1,2)] split: option.splits socket_phase.splits)
next
  case (SocketData buf)
  with assms(4) show ?thesis
    by (auto simp add: evolves_handleData [OF assms(1)] split: option.splits socket_phase.splits)
next
  case (SocketError err)
  have "evolves G c (c\<lparr>socket := Some s\<rparr>)" for s by (rule evolves.same) simp_all
  from evolves.trans [OF this evolves_handleConnectionError [OF assms(1)]]
    evolves.trans [OF this evolves_handleError [OF assms(1)]] SocketError assms(4)
  show ?thesis
    by (auto split: option.splits socket_phase.splits)
next
  case SocketEnd
  with assms(4) show ?thesis
    by (auto simp add: evolves_disconnect split: option.splits socket_phase.splits)
next
  case (TimerFire h)
  let ?c = "c\<lparr>timers := (timers c)[h := (timers c ! h)\<lparr>armed := False\<rparr>]\<rparr>"
  have e: "evolves G c ?c" by (rule evolves.same) simp_all
  have "cmds_ok readable ?c" using assms(3) by (simp add: cmds_ok_def)
  from evolves.trans [OF e evolves_responseTimeout [OF assms(1) this]] TimerFire assms(4)
  show ?thesis by (auto split: if_splits)
qed


lemma pushes_readable: "pushes readable k t pl options"
  using pack_length by (auto simp add: pushes_def readable_def)

lemma reachable_queue:
  assumes "reachable c"
  shows "cmds_ok readable c \<and> tail_unsent c"
  using assms
proof (induction rule: reachable.induct)
  case (initial options)
  show ?case by (simp add: cmds_ok_def tail_unsent_def constructor_def)
next
  case (after c ev c')
  have "evolves readable c c'"
    by (rule evolves_step [OF _ _ _ after.hyps(2)])
      (simp_all add: client_ok_def auth_ok_def pushes_readable after.IH)
  with after.IH show ?case
    by (blast intro: evolves_cmds_ok evolves_tail_unsent)
qed

lemma tail_unsent_filter:
  assumes "tail_unsent c"
  shows "length (filter sent (queue c)) \<le> 1"
proof (cases "queue c")
  case Nil
  then show ?thesis by simp
next
  case (Cons x rest)
  with assms have "filter sent rest = []" by (auto simp add: tail_unsent_def filter_empty_conv)
  with Cons show ?thesis by simp
qed

lemma processQueue_wire:
  assumes "processQueue c = Inr c'"
  shows "wire c' = wire c @ (case queue c of [] \<Rightarrow> [] | x # _ \<Rightarrow> if sent x then [] else frames x)"
  using assms
  by (auto simp add: processQueue_def wire_def frames_def socket_write_def startResponseTimeout_def
      Let_def split: list.splits if_splits option.splits)

lemma run_reachable: "reachable c \<Longrightarrow> run evs c = Some c' \<Longrightarrow> reachable c'"
  by (induction evs arbitrary: c) (auto intro: reachable.after split: option.splits)


text \<open>
  Claim C5.  In every state that the connection can reach from its construction:
  only the head of the queue can have been dispatched, so at most one queued command
  is in flight; \<open>processQueue\<close> writes to the socket exactly the frames of the head,
  and only if the head is not yet sent; and every event extends the history at its end
  only.  The queue is therefore first-in first-out: the completed commands are at
  every time the first of the submitted ones, in the order of submission, and no
  command is completed while an earlier one waits.  (In flight means dispatched and
  not yet completed; a command that timed out or failed is completed.)
\<close>

theorem single_in_flight_fifo:
  assumes "reachable c"
  shows "(\<forall>x \<in> set (tl (queue c)). \<not> sent x)
         \<and> length (filter sent (queue c)) \<le> 1
         \<and> (\<forall>c'. processQueue c = Inr c' \<longrightarrow>
               wire c' = wire c @ (case queue c of [] \<Rightarrow> [] | x # _ \<Rightarrow> if sent x then [] else frames x))
         \<and> (\<forall>ev c'. step ev c = Some c' \<longrightarrow> prefix (history c) (history c'))"
proof -
  note q = reachable_queue [OF assms]
  have "prefix (history c) (history c')" if "step ev c = Some c'" for ev c'
  proof -
    have "evolves readable c c'"
      by (rule evolves_step [OF _ _ _ that])
        (simp_all add: client_ok_def auth_ok_def pushes_readable q)
    then show ?thesis by (rule evolves_history)
  qed
  with q tail_unsent_filter [of c] processQueue_wire [of c] show ?thesis
    by (auto simp add: tail_unsent_def)
qed

theorem single_in_flight_fifo_witness:
  "length (filter sent (queue two_queued)) \<le> 1
   \<and> prefix (history two_queued)
        (history (send (calls two_queued) (str ''info'') None (two_queued\<lparr>calls := calls two_queued + 1\<rparr>)))"
proof -
  have "run [Connect, SocketConnect, SocketData AUTH_OK, Send (str ''status'') None,
             Send (str ''stats'') None] (constructor endpoint) = Some two_queued"
    unfolding two_queued_def by (simp add: scenario_defs codec_defs conn_defs)
  from run_reachable [OF reachable.initial this] have r: "reachable two_queued" .
  have "step (Send (str ''info'') None) two_queued
          = Some (send (calls two_queued) (str ''info'') None (two_queued\<lparr>calls := calls two_queued + 1\<rparr>))"
    by simp
  with single_in_flight_fifo [OF r] show ?thesis by blast
qed







end
